theory Spec2Isabelle
  imports Complex_Main "HOL-Library.Word"
begin

chapter \<open>The delayed, rate-limited work queue and the pod request sum of clusterrouter\<close>

text \<open>
  A shallow embedding of package \<open>queue\<close> (the second part of
  \<open>src/pkg/utils/log/log.go\<close>, from line 61 on), of \<open>GetLogger\<close> (the first part of that
  file), which the workers of the queue call, and of \<open>GetRequestFromPod\<close> with
  \<open>PodRequestsAndLimits\<close> (\<open>src/unnamed/part_000\<close>). An operation of the queue runs under
  the queue's lock, so it is a function from the state before to the state after; a panic
  is the left value of a sum. Tracing spans and log output are not modelled.
\<close>

section \<open>Time\<close>

text \<open>
  A Go \<open>time.Time\<close> is modelled as the integer number of nanoseconds since the zero
  instant, so that \<open>IsZero\<close> is equality with 0. A \<open>time.Duration\<close> is an \<open>int64\<close> count
  of nanoseconds; it is modelled as an integer, and \<open>Time.Sub\<close> saturates at the bounds
  of \<open>int64\<close> as the Go library does. Monotonic clock readings are not modelled.
\<close>

type_synonym Time = int
type_synonym Duration = int

definition minDuration :: Duration where
  "minDuration = - (2 ^ 63)"

definition maxDuration :: Duration where
  "maxDuration = 2 ^ 63 - 1"

definition IsZero :: "Time \<Rightarrow> bool" where
  "IsZero t = (t = 0)"

definition time_Add :: "Time \<Rightarrow> Duration \<Rightarrow> Time" where
  "time_Add t d = t + d"

definition time_Before :: "Time \<Rightarrow> Time \<Rightarrow> bool" where
  "time_Before t u = (t < u)"

definition time_After :: "Time \<Rightarrow> Time \<Rightarrow> bool" where
  "time_After t u = (u < t)"

definition time_Sub :: "Time \<Rightarrow> Time \<Rightarrow> Duration" where
  "time_Sub t u =
     (let d = t - u
      in if d < minDuration then minDuration
         else if maxDuration < d then maxDuration
         else d)"

text \<open>
  \<open>time.Until(t)\<close> is \<open>t.Sub(time.Now())\<close>: it reads the wall clock of the process, whose
  reading is the first argument here.
\<close>

definition time_Until :: "Time \<Rightarrow> Time \<Rightarrow> Duration" where
  "time_Until wall t = time_Sub t wall"

section \<open>The queue's data\<close>

definition MaxRetries :: "64 word" where
  "MaxRetries = 20"

record queueItem =
  key :: string
  plannedToStartWorkAt :: Time
  redirtiedAt :: Time
  redirtiedWithRatelimit :: bool
  forget :: bool
  requeues :: "64 word"
  originallyAdded :: Time
  addedViaRedirty :: bool
  delayedViaRateLimit :: "Duration option"

text \<open>
  The rate limiter is an injected interface. A deterministic rate limiter is a function of
  the calls it has received, so its state is modelled as the history of these calls, and
  the delay that \<open>When\<close> answers as a function of the history so far and the key.
\<close>

datatype rl_call = RL_When string | RL_Forget string

text \<open>
  What an operation reads from outside the queue: the injected clock (\<open>q.clock.Now()\<close>),
  the wall clock of the process (\<open>time.Now()\<close>, read by \<open>time.Until\<close>) and the answers of
  the injected rate limiter. Every operation reads each clock at most once.
\<close>

record env =
  clock_now :: Time
  wall_now :: Time
  ratelimiter_When :: "rl_call list \<Rightarrow> string \<Rightarrow> Duration"

text \<open>
  \<open>items\<close> is the \<open>container/list\<close> of pending items. An element of that list has an
  identity (the \<open>*list.Element\<close> pointer), modelled as a natural number; \<open>next_elem\<close> is
  the allocator of fresh elements. \<open>itemsInQueue\<close> maps a key to the element,
  \<open>itemsBeingProcessed\<close> maps a key to the item in flight. \<open>wakeupCh\<close> is the channel of
  capacity 1: \<open>True\<close> when a wakeup is buffered. The lock, the semaphore, the name and the
  handler are not part of the state.
\<close>

type_synonym element = "nat \<times> queueItem"

record Queue =
  running :: bool
  rl_calls :: "rl_call list"
  items :: "element list"
  itemsInQueue :: "string \<rightharpoonup> nat"
  itemsBeingProcessed :: "string \<rightharpoonup> queueItem"
  wakeupCh :: bool
  next_elem :: nat

definition New :: Queue where
  "New = \<lparr>running = False, rl_calls = [], items = [], itemsInQueue = Map.empty,
          itemsBeingProcessed = Map.empty, wakeupCh = False, next_elem = 0\<rparr>"

datatype panic =
  NonZeroDelayWithRateLimit
  | InconsistentState
  | WorkersNotPositive
  | AlreadyRunning
  | DefaultLoggerNotInitialized
  | FeatureNotRegistered

text \<open>The \<open>*queueItem\<close> that \<open>insert\<close> returns: the item in flight under a key, or the item
  of an element of the list.\<close>

datatype item_ref = InFlight string | InList nat

section \<open>The operations of container/list that the queue uses\<close>

fun list_Value :: "nat \<Rightarrow> element list \<Rightarrow> queueItem option" where
  "list_Value e [] = None"
| "list_Value e (x # xs) = (if fst x = e then Some (snd x) else list_Value e xs)"

fun list_Remove :: "nat \<Rightarrow> element list \<Rightarrow> element list" where
  "list_Remove e [] = []"
| "list_Remove e (x # xs) = (if fst x = e then xs else x # list_Remove e xs)"

definition list_PushFront :: "element \<Rightarrow> element list \<Rightarrow> element list" where
  "list_PushFront new xs = new # xs"

text \<open>\<open>InsertAfter\<close> does nothing when the mark is not an element of the list.\<close>

fun list_InsertAfter :: "element \<Rightarrow> nat \<Rightarrow> element list \<Rightarrow> element list" where
  "list_InsertAfter new mark [] = []"
| "list_InsertAfter new mark (x # xs) =
     (if fst x = mark then x # new # xs else x # list_InsertAfter new mark xs)"

text \<open>\<open>MoveAfter\<close> does nothing when the element or the mark is not in the list, or when
  they are the same element.\<close>

definition list_MoveAfter :: "nat \<Rightarrow> nat \<Rightarrow> element list \<Rightarrow> element list" where
  "list_MoveAfter e mark xs =
     (case list_Value e xs of
        None \<Rightarrow> xs
      | Some v \<Rightarrow>
          if e = mark \<or> list_Value mark xs = None then xs
          else list_InsertAfter (e, v) mark (list_Remove e xs))"

definition list_MoveToFront :: "nat \<Rightarrow> element list \<Rightarrow> element list" where
  "list_MoveToFront e xs =
     (case list_Value e xs of
        None \<Rightarrow> xs
      | Some v \<Rightarrow> (e, v) # list_Remove e xs)"

text \<open>The elements before \<open>e\<close>, nearest first: what \<open>element.Prev()\<close>, \<open>Prev()\<close> of that, ...
  visit.\<close>

definition list_Prevs :: "nat \<Rightarrow> element list \<Rightarrow> element list" where
  "list_Prevs e xs = rev (takeWhile (\<lambda>x. fst x \<noteq> e) xs)"

text \<open>Assignment through the \<open>*queueItem\<close> of an element.\<close>

fun list_Update :: "nat \<Rightarrow> (queueItem \<Rightarrow> queueItem) \<Rightarrow> element list \<Rightarrow> element list" where
  "list_Update e f [] = []"
| "list_Update e f (x # xs) =
     (if fst x = e then (e, f (snd x)) # xs else x # list_Update e f xs)"

section \<open>insert and adjustPosition (lines 193 to 287)\<close>

text \<open>
  Both loops of the source walk the list from the back (or from the element's predecessor)
  towards the front and stop at the first item planned strictly before the given time.
  The argument is the list of the visited elements in the order of the visit.
\<close>

fun scanBefore :: "Time \<Rightarrow> element list \<Rightarrow> nat option" where
  "scanBefore t [] = None"
| "scanBefore t (x # xs) =
     (if time_Before (plannedToStartWorkAt (snd x)) t then Some (fst x) else scanBefore t xs)"

text \<open>
  \<open>adjustPosition\<close> is called with the element that \<open>itemsInQueue\<close> holds for the key and
  with the item of that element. Were the element not in the list, the assignment would
  reach an item that the queue no longer holds and both moves would do nothing: the queue
  is unchanged.
\<close>

definition adjustPosition :: "Queue \<Rightarrow> nat \<Rightarrow> Time \<Rightarrow> Queue" where
  "adjustPosition q element when =
     (case list_Value element (items q) of
        None \<Rightarrow> q
      | Some qi \<Rightarrow>
          if time_After when (plannedToStartWorkAt qi) then q
          else
            let its = list_Update element (\<lambda>i. i\<lparr>plannedToStartWorkAt := when\<rparr>) (items q)
            in case scanBefore when (list_Prevs element its) of
                 Some prev \<Rightarrow> q\<lparr>items := list_MoveAfter element prev its\<rparr>
               | None \<Rightarrow> q\<lparr>items := list_MoveToFront element its\<rparr>)"

text \<open>The tail of \<open>insert\<close>: the new item is put after the last item planned strictly
  before it, or at the front.\<close>

definition place_new :: "Queue \<Rightarrow> queueItem \<Rightarrow> Queue \<times> item_ref" where
  "place_new q val =
     (let e = next_elem q;
          its = (case scanBefore (plannedToStartWorkAt val) (rev (items q)) of
                   Some mark \<Rightarrow> list_InsertAfter (e, val) mark (items q)
                 | None \<Rightarrow> list_PushFront (e, val) (items q))
      in (q\<lparr>items := its, itemsInQueue := (itemsInQueue q)(key val \<mapsto> e),
            next_elem := Suc e, wakeupCh := True\<rparr>, InList e))"

text \<open>The struct literal of \<open>insert\<close>: the fields it does not name have their zero
  values.\<close>

definition new_queueItem :: "string \<Rightarrow> Time \<Rightarrow> queueItem" where
  "new_queueItem k now =
     \<lparr>key = k, plannedToStartWorkAt = now, redirtiedAt = 0,
      redirtiedWithRatelimit = False, forget = False, requeues = 0,
      originallyAdded = now, addedViaRedirty = False, delayedViaRateLimit = None\<rparr>"

definition insert_queue ::
  "env \<Rightarrow> Queue \<Rightarrow> string \<Rightarrow> bool \<Rightarrow> Duration \<Rightarrow> panic + (Queue \<times> item_ref)" where
  "insert_queue ev q k ratelimit delay =
     (case itemsBeingProcessed q k of
        Some item \<Rightarrow>
          let when = time_Add (clock_now ev) delay;
              item1 =
                (if IsZero (redirtiedAt item)
                 then item\<lparr>redirtiedAt := when, redirtiedWithRatelimit := ratelimit\<rparr>
                 else if time_Before when (redirtiedAt item)
                 then item\<lparr>redirtiedAt := when, redirtiedWithRatelimit := ratelimit\<rparr>
                 else item)
          in Inr (q\<lparr>itemsBeingProcessed := (itemsBeingProcessed q)(k \<mapsto> item1\<lparr>forget := False\<rparr>),
                    wakeupCh := True\<rparr>, InFlight k)
      | None \<Rightarrow>
          (case itemsInQueue q k of
             Some element \<Rightarrow>
               let when = time_Add (clock_now ev) delay
               in Inr ((adjustPosition q element when)\<lparr>wakeupCh := True\<rparr>, InList element)
           | None \<Rightarrow>
               let now = clock_now ev;
                   val = new_queueItem k now
               in if ratelimit then
                    if 0 < delay then Inl NonZeroDelayWithRateLimit
                    else
                      let ratelimitDelay = ratelimiter_When ev (rl_calls q) k
                      in Inr (place_new (q\<lparr>rl_calls := rl_calls q @ [RL_When k]\<rparr>)
                               (val\<lparr>plannedToStartWorkAt := time_Add now ratelimitDelay,
                                    delayedViaRateLimit := Some ratelimitDelay\<rparr>))
                  else Inr (place_new q (val\<lparr>plannedToStartWorkAt := time_Add now delay\<rparr>))))"

section \<open>The public operations (lines 149 to 189 and 290 to 332)\<close>

definition Enqueue :: "env \<Rightarrow> Queue \<Rightarrow> string \<Rightarrow> panic + Queue" where
  "Enqueue ev q k = map_sum id fst (insert_queue ev q k True 0)"

definition EnqueueWithoutRateLimit :: "env \<Rightarrow> Queue \<Rightarrow> string \<Rightarrow> panic + Queue" where
  "EnqueueWithoutRateLimit ev q k = map_sum id fst (insert_queue ev q k False 0)"

definition EnqueueWithoutRateLimitWithDelay ::
  "env \<Rightarrow> Queue \<Rightarrow> string \<Rightarrow> Duration \<Rightarrow> panic + Queue" where
  "EnqueueWithoutRateLimitWithDelay ev q k after = map_sum id fst (insert_queue ev q k False after)"

definition Forget :: "Queue \<Rightarrow> string \<Rightarrow> Queue" where
  "Forget q k =
     (case itemsInQueue q k of
        Some item \<Rightarrow> q\<lparr>itemsInQueue := (itemsInQueue q)(k := None),
                      items := list_Remove item (items q)\<rparr>
      | None \<Rightarrow>
          (case itemsBeingProcessed q k of
             Some qi \<Rightarrow> q\<lparr>itemsBeingProcessed := (itemsBeingProcessed q)(k \<mapsto> qi\<lparr>forget := True\<rparr>)\<rparr>
           | None \<Rightarrow> q))"

definition Len :: "Queue \<Rightarrow> panic + nat" where
  "Len q =
     (if length (items q) \<noteq> card (dom (itemsInQueue q)) then Inl InconsistentState
      else Inr (length (items q) + card (dom (itemsBeingProcessed q))))"

definition Empty :: "Queue \<Rightarrow> panic + bool" where
  "Empty q = map_sum id (\<lambda>n. n = 0) (Len q)"

text \<open>The entry of \<open>Run\<close>, up to the start of the workers: the two checks and the flag.
  \<open>Run\<close> with its workers is defined below, after the worker.\<close>

definition Run_enter :: "Queue \<Rightarrow> int \<Rightarrow> panic + Queue" where
  "Run_enter q workers =
     (if workers \<le> 0 then Inl WorkersNotPositive
      else if running q then Inl AlreadyRunning
      else Inr (q\<lparr>running := True\<rparr>))"

text \<open>What \<open>Run\<close> defers: the flag is cleared when the workers have stopped.\<close>

definition Run_exit :: "Queue \<Rightarrow> Queue" where
  "Run_exit q = q\<lparr>running := False\<rparr>"

section \<open>getNextItem (lines 359 to 405)\<close>

text \<open>
  One pass of the loop of \<open>getNextItem\<close> under the lock. The pass either finds the list
  empty (the worker then waits for a wakeup), hands the front item out, or finds that the
  front item is not due (the worker then waits for the timer or a wakeup).
\<close>

datatype next_item = NoItem | Ready queueItem | Sleep Duration

definition getNextItem_pass :: "env \<Rightarrow> Queue \<Rightarrow> Queue \<times> next_item" where
  "getNextItem_pass ev q =
     (case items q of
        [] \<Rightarrow> (q, NoItem)
      | element # rest \<Rightarrow>
          let qi = snd element;
              timeUntilProcessing = time_Until (wall_now ev) (plannedToStartWorkAt qi)
          in if timeUntilProcessing \<le> 0
             then (q\<lparr>itemsBeingProcessed := (itemsBeingProcessed q)(key qi \<mapsto> qi),
                     items := list_Remove (fst element) (items q),
                     itemsInQueue := (itemsInQueue q)(key qi := None)\<rparr>, Ready qi)
             else (q, Sleep timeUntilProcessing))"

section \<open>Completion: handleQueueItemObject after the handler has returned\<close>

datatype error = HandlerError string | MaxRetriesReached string error

text \<open>Assignment through the \<open>*queueItem\<close> that \<open>insert\<close> returned.\<close>

definition update_ref :: "item_ref \<Rightarrow> (queueItem \<Rightarrow> queueItem) \<Rightarrow> Queue \<Rightarrow> Queue" where
  "update_ref r f q =
     (case r of
        InFlight k \<Rightarrow>
          (case itemsBeingProcessed q k of
             None \<Rightarrow> q
           | Some i \<Rightarrow> q\<lparr>itemsBeingProcessed := (itemsBeingProcessed q)(k \<mapsto> f i)\<rparr>)
      | InList e \<Rightarrow> q\<lparr>items := list_Update e f (items q)\<rparr>)"

definition ratelimiter_Forget :: "Queue \<Rightarrow> string \<Rightarrow> Queue" where
  "ratelimiter_Forget q k = q\<lparr>rl_calls := rl_calls q @ [RL_Forget k]\<rparr>"

text \<open>
  The part of \<open>handleQueueItemObject\<close> under the lock. \<open>qi\<close> is the item that the worker
  holds (the contents of its \<open>*queueItem\<close> when the lock is taken), \<open>err\<close> what the
  handler returned.
\<close>

definition handleQueueItemObject ::
  "env \<Rightarrow> Queue \<Rightarrow> queueItem \<Rightarrow> error option \<Rightarrow> panic + (Queue \<times> error option)" where
  "handleQueueItemObject ev q qi err =
     (let q1 = q\<lparr>itemsBeingProcessed := (itemsBeingProcessed q)(key qi := None)\<rparr>
      in if forget qi then Inr (ratelimiter_Forget q1 (key qi), None)
         else if err \<noteq> None \<and> requeues qi + 1 <s MaxRetries then
           (case insert_queue ev q1 (key qi) True 0 of
              Inl p \<Rightarrow> Inl p
            | Inr (q2, newQI) \<Rightarrow>
                Inr (update_ref newQI
                       (\<lambda>i. i\<lparr>requeues := requeues qi + 1,
                               originallyAdded := originallyAdded qi\<rparr>) q2, None))
         else
           let err1 = map_option (MaxRetriesReached (key qi)) err;
               q2 = ratelimiter_Forget q1 (key qi)
           in if \<not> IsZero (redirtiedAt qi) then
                (case insert_queue ev q2 (key qi) (redirtiedWithRatelimit qi)
                        (time_Until (wall_now ev) (redirtiedAt qi)) of
                   Inl p \<Rightarrow> Inl p
                 | Inr (q3, newQI) \<Rightarrow>
                     Inr (update_ref newQI (\<lambda>i. i\<lparr>addedViaRedirty := True\<rparr>) q3, err1))
              else Inr (q2, err1))"

section \<open>One worker, run alone\<close>

text \<open>
  The loop of \<open>worker\<close> (\<open>handleQueueItem\<close> again and again) for a single worker while no
  other goroutine touches the queue: the handler is a function of the key that takes no
  time and does not call the queue. A pass of \<open>getNextItem\<close> that finds no item, or an item
  that is not due, waits: when a wakeup is buffered it is taken and the pass is repeated;
  otherwise, with no item the worker is blocked for good, and with an item that is not due
  the timer fires after the computed duration, by which both clocks have advanced. The
  counter is the number of calls of the handler. The first argument bounds the number of
  passes.
\<close>

datatype worker_outcome = Blocked env Queue nat | OutOfFuel | Panicked panic

definition advance :: "env \<Rightarrow> Duration \<Rightarrow> env" where
  "advance ev t = ev\<lparr>clock_now := clock_now ev + t, wall_now := wall_now ev + t\<rparr>"

fun worker ::
  "nat \<Rightarrow> (string \<Rightarrow> error option) \<Rightarrow> env \<Rightarrow> Queue \<Rightarrow> nat \<Rightarrow> worker_outcome" where
  "worker 0 handler ev q calls = OutOfFuel"
| "worker (Suc fuel) handler ev q calls =
     (case getNextItem_pass ev q of
        (q1, NoItem) \<Rightarrow>
          if wakeupCh q then worker fuel handler ev (q\<lparr>wakeupCh := False\<rparr>) calls
          else Blocked ev q calls
      | (q1, Sleep timeUntilProcessing) \<Rightarrow>
          if wakeupCh q then worker fuel handler ev (q\<lparr>wakeupCh := False\<rparr>) calls
          else worker fuel handler (advance ev timeUntilProcessing) q calls
      | (q1, Ready qi) \<Rightarrow>
          (case handleQueueItemObject ev q1 qi (handler (key qi)) of
             Inl p \<Rightarrow> Panicked p
           | Inr (q2, err) \<Rightarrow> worker fuel handler ev q2 (Suc calls)))"

section \<open>The logger of a worker, and Run with its worker\<close>

text \<open>
  \<open>GetLogger\<close> (the first part of \<open>log.go\<close>, lines 49 to 60): the logger that the context
  carries, else the package variable \<open>L\<close>, and a panic when \<open>L\<close> is nil. Both are pointers
  to a logger, \<open>None\<close> being nil or absent. \<open>L\<close> is initialised to a logger that does
  nothing, but it is an exported variable that a program may set to nil.
\<close>

definition GetLogger :: "'l option \<Rightarrow> 'l option \<Rightarrow> panic + 'l" where
  "GetLogger L ctxLogger =
     (case ctxLogger of
        None \<Rightarrow> (case L of None \<Rightarrow> Inl DefaultLoggerNotInitialized | Some l \<Rightarrow> Inr l)
      | Some logger \<Rightarrow> Inr logger)"

text \<open>
  \<open>Run\<close> (lines 317 to 348) with the worker it starts, for one worker run alone: the checks
  and the flag of the entry; then \<open>worker\<close> (lines 350 to 357) looks the logger up in the
  context given to \<open>Run\<close>, by \<open>log.G\<close>, which is \<open>GetLogger\<close>, and puts the logger with its
  fields into its own context, so that every later \<open>log.G\<close> of the worker finds a logger;
  then the worker loops. With several workers each worker makes the same lookup with the
  same context, and the passes and completions of the workers interleave: each of them is
  a call of \<open>getNextItem_pass\<close> or of \<open>handleQueueItemObject\<close> on the state of the queue at
  that moment. \<open>Run\<close> returns only when its context is cancelled, which is not modelled.
\<close>

definition Run ::
  "nat \<Rightarrow> (string \<Rightarrow> error option) \<Rightarrow> 'l option \<Rightarrow> 'l option \<Rightarrow> env \<Rightarrow> Queue \<Rightarrow> int \<Rightarrow>
   worker_outcome" where
  "Run fuel handler L ctxLogger ev q workers =
     (case Run_enter q workers of
        Inl p \<Rightarrow> Panicked p
      | Inr q1 \<Rightarrow>
          (case GetLogger L ctxLogger of
             Inl p \<Rightarrow> Panicked p
           | Inr logger \<Rightarrow> worker fuel handler ev q1 0))"

section \<open>Pod resource requests\<close>

text \<open>
  A \<open>resource.Quantity\<close> is an exact decimal number; \<open>Add\<close> is exact addition and \<open>Cmp\<close> the
  order of the numbers, so a quantity is modelled as a rational. A \<open>ResourceList\<close> is a map
  from resource names to quantities.
\<close>

type_synonym Quantity = rat
type_synonym ResourceList = "string \<rightharpoonup> Quantity"

record ResourceRequirements =
  Limits :: ResourceList
  Requests :: ResourceList

record Container =
  Resources :: ResourceRequirements









section \<open>The state invariants\<close>

text \<open>The elements of the list are distinct, and each was allocated before \<open>next_elem\<close>.\<close>

definition elements_wf :: "Queue \<Rightarrow> bool" where
  "elements_wf q \<longleftrightarrow>
     distinct (map fst (items q)) \<and> list_all (\<lambda>x. fst x < next_elem q) (items q)"

text \<open>A key is in \<open>itemsInQueue\<close> if and only if exactly one element of \<open>items\<close> carries an
  item with that key, and \<open>itemsInQueue\<close> maps the key to that element.\<close>

definition index_matches_list :: "Queue \<Rightarrow> bool" where
  "index_matches_list q \<longleftrightarrow>
     distinct (map (key \<circ> snd) (items q)) \<and>
     list_all (\<lambda>x. itemsInQueue q (key (snd x)) = Some (fst x)) (items q) \<and>
     dom (itemsInQueue q) = set (map (key \<circ> snd) (items q))"

text \<open>No key is both in \<open>itemsInQueue\<close> and in \<open>itemsBeingProcessed\<close>.\<close>

definition pending_inflight_disjoint :: "Queue \<Rightarrow> bool" where
  "pending_inflight_disjoint q \<longleftrightarrow> dom (itemsInQueue q) \<inter> dom (itemsBeingProcessed q) = {}"

text \<open>\<open>items\<close> is ordered non-decreasingly by \<open>plannedToStartWorkAt\<close>.\<close>

definition pending_sorted :: "Queue \<Rightarrow> bool" where
  "pending_sorted q \<longleftrightarrow> sorted (map (plannedToStartWorkAt \<circ> snd) (items q))"

definition queue_inv :: "Queue \<Rightarrow> bool" where
  "queue_inv q \<longleftrightarrow>
     elements_wf q \<and> index_matches_list q \<and> pending_inflight_disjoint q \<and> pending_sorted q"

text \<open>
  The specification's tie rule, in its words: items with the same planned time stand in
  the order of their insertion. Elements are allocated in the order of insertion, so the
  element with the smaller identity was inserted first.
\<close>

definition ties_keep_insertion_order :: "Queue \<Rightarrow> bool" where
  "ties_keep_insertion_order q \<longleftrightarrow>
     sorted_wrt (\<lambda>x y. plannedToStartWorkAt (snd x) = plannedToStartWorkAt (snd y) \<longrightarrow> fst x < fst y)
       (items q)"

section \<open>Concrete states\<close>

text \<open>An environment whose two clocks agree and whose rate limiter always answers 10.\<close>

definition ev_ex :: env where
  "ev_ex = \<lparr>clock_now = 100, wall_now = 100, ratelimiter_When = (\<lambda>h k. 10)\<rparr>"

definition item_ex :: "string \<Rightarrow> Time \<Rightarrow> queueItem" where
  "item_ex k t = (new_queueItem k 1)\<lparr>plannedToStartWorkAt := t\<rparr>"

text \<open>A queue with two pending items and one item in flight that was re-dirtied.\<close>

definition q_ex :: Queue where
  "q_ex = \<lparr>running = False, rl_calls = [],
           items = [(0, item_ex ''a'' 50), (1, item_ex ''b'' 70)],
           itemsInQueue = [''a'' \<mapsto> 0, ''b'' \<mapsto> 1],
           itemsBeingProcessed = [''c'' \<mapsto> (item_ex ''c'' 20)\<lparr>redirtiedAt := 90\<rparr>],
           wakeupCh = False, next_elem = 2\<rparr>"

text \<open>The item in flight of \<open>q_ex\<close>.\<close>

definition item_c :: queueItem where
  "item_c = (item_ex ''c'' 20)\<lparr>redirtiedAt := 90\<rparr>"

text \<open>The environment \<open>ev_ex\<close> with another reading of the wall clock.\<close>

definition ev_wall :: env where
  "ev_wall = ev_ex\<lparr>wall_now := 0\<rparr>"

text \<open>The queue after \<open>EnqueueWithoutRateLimit\<close> of \<open>a\<close> at time 100, and after that of \<open>b\<close> at
  the same time.\<close>

definition q_a :: Queue where
  "q_a = \<lparr>running = False, rl_calls = [], items = [(0, new_queueItem ''a'' 100)],
          itemsInQueue = [''a'' \<mapsto> 0], itemsBeingProcessed = Map.empty,
          wakeupCh = True, next_elem = 1\<rparr>"

definition q_ba :: Queue where
  "q_ba = \<lparr>running = False, rl_calls = [],
           items = [(1, new_queueItem ''b'' 100), (0, new_queueItem ''a'' 100)],
           itemsInQueue = [''a'' \<mapsto> 0, ''b'' \<mapsto> 1], itemsBeingProcessed = Map.empty,
           wakeupCh = True, next_elem = 2\<rparr>"

text \<open>The queue \<open>q_ba\<close> after \<open>EnqueueWithoutRateLimit\<close> of \<open>a\<close> once more at time 100.\<close>

definition q_aba :: Queue where
  "q_aba = \<lparr>running = False, rl_calls = [],
           items = [(0, new_queueItem ''a'' 100), (1, new_queueItem ''b'' 100)],
           itemsInQueue = [''a'' \<mapsto> 0, ''b'' \<mapsto> 1], itemsBeingProcessed = Map.empty,
           wakeupCh = True, next_elem = 2\<rparr>"

text \<open>
  The queue \<open>q_a\<close> after the pickup of \<open>a\<close> at time 100, and after an \<open>Enqueue\<close> of \<open>a\<close> at
  the same time while it is in flight, which re-dirties the item with the rate limit.
\<close>

definition q_flight :: Queue where
  "q_flight = q_a\<lparr>itemsBeingProcessed := [''a'' \<mapsto> new_queueItem ''a'' 100], items := [],
                 itemsInQueue := Map.empty\<rparr>"

definition item_rl :: queueItem where
  "item_rl = (new_queueItem ''a'' 100)\<lparr>redirtiedAt := 100, redirtiedWithRatelimit := True\<rparr>"

definition q_redirtied :: Queue where
  "q_redirtied = q_flight\<lparr>itemsBeingProcessed := [''a'' \<mapsto> item_rl]\<rparr>"

section \<open>The specification's re-insert on completion\<close>

text \<open>
  Following the specification's words, for a completed item that was re-dirtied: one
  \<open>rateLimiter.forget(key)\<close>, then \<open>insert(key, ratelimit = item.redirtiedWithRatelimit,
  delay = max(0, redirtiedAt - now))\<close>, and the new item marked \<open>addedViaRedirty\<close>.
\<close>

definition completion_redirty_spec :: "env \<Rightarrow> Queue \<Rightarrow> queueItem \<Rightarrow> panic + Queue" where
  "completion_redirty_spec ev q qi =
     (let q1 = q\<lparr>itemsBeingProcessed := (itemsBeingProcessed q)(key qi := None)\<rparr>;
          q2 = ratelimiter_Forget q1 (key qi)
      in case insert_queue ev q2 (key qi) (redirtiedWithRatelimit qi)
                (max 0 (redirtiedAt qi - clock_now ev)) of
           Inl p \<Rightarrow> Inl p
         | Inr (q3, newQI) \<Rightarrow> Inr (update_ref newQI (\<lambda>i. i\<lparr>addedViaRedirty := True\<rparr>) q3))"

section \<open>The specification's sum of the container requests\<close>

text \<open>The quantities that the containers of a list request for a resource.\<close>

definition requested :: "Container list \<Rightarrow> string \<Rightarrow> Quantity list" where
  "requested cs name = List.map_filter (\<lambda>c. Requests (Resources c) name) cs"



section \<open>States of a run with one key\<close>

text \<open>The queue holds exactly one pending item, of the given key, and nothing in flight.\<close>

definition single_pending :: "string \<Rightarrow> queueItem \<Rightarrow> Queue \<Rightarrow> bool" where
  "single_pending k qi q \<longleftrightarrow>
     (\<exists>e. items q = [(e, qi)] \<and> itemsInQueue q = [k \<mapsto> e]) \<and>
     itemsBeingProcessed q = Map.empty \<and> key qi = k \<and> \<not> forget qi \<and> redirtiedAt qi = 0"

text \<open>Nothing is pending and nothing is in flight.\<close>

definition idle :: "Queue \<Rightarrow> bool" where
  "idle q \<longleftrightarrow> items q = [] \<and> itemsInQueue q = Map.empty \<and> itemsBeingProcessed q = Map.empty"

text \<open>The state after the completion of a failed call on the single item: the key is
  pending again with one more requeue, or, at the last retry, the queue is idle.\<close>

definition round_done :: "string \<Rightarrow> queueItem \<Rightarrow> env \<Rightarrow> Queue \<Rightarrow> bool" where
  "round_done k qi ev q \<longleftrightarrow>
     (if requeues qi + 1 <s MaxRetries
      then \<exists>qi'. single_pending k qi' q \<and> requeues qi' = requeues qi + 1 \<and>
             plannedToStartWorkAt qi' - clock_now ev \<le> maxDuration
      else idle q)"

section \<open>Lemmas\<close>

subsection \<open>The list operations on a list split at an element\<close>

lemma list_Remove_filter:
  "distinct (map fst xs) \<Longrightarrow> list_Remove e xs = filter (\<lambda>x. fst x \<noteq> e) xs"
proof (induction xs)
  case Nil
  then show ?case by simp
next
  case (Cons x xs)
  show ?case
  proof (cases "fst x = e")
    case True
    with Cons.prems have "\<forall>y\<in>set xs. fst y \<noteq> e" by (auto simp: image_iff)
    then have "filter (\<lambda>x. fst x \<noteq> e) xs = xs" by (simp add: filter_id_conv)
    with True show ?thesis by simp
  next
    case False
    with Cons show ?thesis by simp
  qed
qed

lemma list_Value_None: "list_Value e xs = None \<longleftrightarrow> e \<notin> fst ` set xs"
  by (induction xs) auto

lemma list_Value_Some:
  "distinct (map fst xs) \<Longrightarrow> list_Value e xs = Some v \<longleftrightarrow> (e, v) \<in> set xs"
  by (induction xs) (auto simp: rev_image_eqI)

lemma list_Value_append:
  "e \<notin> fst ` set pre \<Longrightarrow> list_Value e (pre @ (e, v) # post) = Some v"
  by (induction pre) auto

lemma list_Remove_append:
  "e \<notin> fst ` set pre \<Longrightarrow> list_Remove e (pre @ (e, v) # post) = pre @ post"
  by (induction pre) auto

lemma list_Update_append:
  "e \<notin> fst ` set pre \<Longrightarrow> list_Update e f (pre @ (e, v) # post) = pre @ (e, f v) # post"
  by (induction pre) auto

lemma list_InsertAfter_append:
  "m \<notin> fst ` set pre \<Longrightarrow>
   list_InsertAfter new m (pre @ (m, v) # post) = pre @ (m, v) # new # post"
  by (induction pre) auto

lemma list_Prevs_append:
  "e \<notin> fst ` set pre \<Longrightarrow> list_Prevs e (pre @ (e, v) # post) = rev pre"
proof -
  assume "e \<notin> fst ` set pre"
  then have "takeWhile (\<lambda>x. fst x \<noteq> e) (pre @ (e, v) # post) = pre"
    by (induction pre) auto
  then show ?thesis by (simp add: list_Prevs_def)
qed

subsection \<open>Where the scans stop\<close>

lemma scanBefore_rev_None:
  "scanBefore t (rev xs) = None \<longleftrightarrow> (\<forall>x\<in>set xs. \<not> plannedToStartWorkAt (snd x) < t)"
  by (induction xs rule: rev_induct) (auto simp: time_Before_def)

lemma scanBefore_rev_Some:
  "scanBefore t (rev xs) = Some m \<Longrightarrow>
   \<exists>pre v post. xs = pre @ (m, v) # post \<and> plannedToStartWorkAt v < t \<and>
     (\<forall>x\<in>set post. \<not> plannedToStartWorkAt (snd x) < t)"
proof (induction xs rule: rev_induct)
  case Nil
  then show ?case by simp
next
  case (snoc x xs)
  show ?case
  proof (cases "plannedToStartWorkAt (snd x) < t")
    case True
    with snoc.prems have "m = fst x" by (simp add: time_Before_def)
    then have "xs @ [x] = xs @ (m, snd x) # []" by simp
    with True show ?thesis by fastforce
  next
    case False
    with snoc.prems have "scanBefore t (rev xs) = Some m" by (simp add: time_Before_def)
    from snoc.IH [OF this] obtain pre v post where
      h: "xs = pre @ (m, v) # post" "plannedToStartWorkAt v < t"
         "\<forall>x\<in>set post. \<not> plannedToStartWorkAt (snd x) < t" by blast
    then have "xs @ [x] = pre @ (m, v) # (post @ [x])" by simp
    moreover have "\<forall>y\<in>set (post @ [x]). \<not> plannedToStartWorkAt (snd y) < t"
      using h(3) False by auto
    ultimately show ?thesis using h(2) by blast
  qed
qed

subsection \<open>The shape of the list after insert and adjustPosition\<close>

lemma place_new_fields:
  "itemsInQueue (fst (place_new q val)) = (itemsInQueue q)(key val \<mapsto> next_elem q)"
  "itemsBeingProcessed (fst (place_new q val)) = itemsBeingProcessed q"
  "next_elem (fst (place_new q val)) = Suc (next_elem q)"
  "rl_calls (fst (place_new q val)) = rl_calls q"
  "running (fst (place_new q val)) = running q"
  "wakeupCh (fst (place_new q val)) = True"
  "snd (place_new q val) = InList (next_elem q)"
  by (simp_all add: place_new_def Let_def)

lemma place_new_items:
  assumes "distinct (map fst (items q))"
  shows "\<exists>pre post. items q = pre @ post \<and>
           items (fst (place_new q val)) = pre @ (next_elem q, val) # post \<and>
           (pre = [] \<or> plannedToStartWorkAt (snd (last pre)) < plannedToStartWorkAt val) \<and>
           (\<forall>x\<in>set post. plannedToStartWorkAt val \<le> plannedToStartWorkAt (snd x))"
proof (cases "scanBefore (plannedToStartWorkAt val) (rev (items q))")
  case None
  then have "\<forall>x\<in>set (items q). plannedToStartWorkAt val \<le> plannedToStartWorkAt (snd x)"
    by (simp add: scanBefore_rev_None not_less)
  moreover have "items (fst (place_new q val)) = [] @ (next_elem q, val) # items q"
    using None by (simp add: place_new_def Let_def list_PushFront_def)
  ultimately show ?thesis by (metis append_Nil)
next
  case (Some m)
  from scanBefore_rev_Some [OF Some] obtain pre v post where
    h: "items q = pre @ (m, v) # post" "plannedToStartWorkAt v < plannedToStartWorkAt val"
       "\<forall>x\<in>set post. \<not> plannedToStartWorkAt (snd x) < plannedToStartWorkAt val" by blast
  from assms h(1) have "m \<notin> fst ` set pre" by auto
  then have "list_InsertAfter (next_elem q, val) m (items q) =
      pre @ (m, v) # (next_elem q, val) # post"
    by (simp add: h(1) list_InsertAfter_append)
  then have "items (fst (place_new q val)) = (pre @ [(m, v)]) @ (next_elem q, val) # post"
    using Some by (simp add: place_new_def Let_def)
  moreover have "items q = (pre @ [(m, v)]) @ post" using h(1) by simp
  moreover have "plannedToStartWorkAt (snd (last (pre @ [(m, v)]))) < plannedToStartWorkAt val"
    using h(2) by simp
  moreover have "\<forall>x\<in>set post. plannedToStartWorkAt val \<le> plannedToStartWorkAt (snd x)"
    using h(3) by (simp add: not_less)
  ultimately show ?thesis by blast
qed

lemma adjustPosition_later:
  assumes "list_Value e (items q) = Some qi" "plannedToStartWorkAt qi < when"
  shows "adjustPosition q e when = q"
  using assms by (simp add: adjustPosition_def time_After_def)

lemma adjustPosition_items:
  assumes d: "distinct (map fst (items q))"
    and i: "items q = pre @ (e, qi) # post"
    and w: "when \<le> plannedToStartWorkAt qi"
  shows "\<exists>p1 p2. pre = p1 @ p2 \<and>
           adjustPosition q e when =
             q\<lparr>items := p1 @ (e, qi\<lparr>plannedToStartWorkAt := when\<rparr>) # p2 @ post\<rparr> \<and>
           (p1 = [] \<or> plannedToStartWorkAt (snd (last p1)) < when) \<and>
           (\<forall>x\<in>set p2. when \<le> plannedToStartWorkAt (snd x))"
proof -
  let ?qi = "qi\<lparr>plannedToStartWorkAt := when\<rparr>"
  let ?its = "pre @ (e, ?qi) # post"
  from d i have e: "e \<notin> fst ` set pre" by auto
  have v: "list_Value e (items q) = Some qi" using e i by (simp add: list_Value_append)
  have u: "list_Update e (\<lambda>i. i\<lparr>plannedToStartWorkAt := when\<rparr>) (items q) = ?its"
    using e i by (simp add: list_Update_append)
  have p: "list_Prevs e ?its = rev pre" using e by (rule list_Prevs_append)
  have v2: "list_Value e ?its = Some ?qi" using e by (rule list_Value_append)
  have r: "list_Remove e ?its = pre @ post" using e by (rule list_Remove_append)
  show ?thesis
  proof (cases "scanBefore when (rev pre)")
    case None
    then have "\<forall>x\<in>set pre. when \<le> plannedToStartWorkAt (snd x)"
      by (simp add: scanBefore_rev_None not_less)
    moreover have "adjustPosition q e when = q\<lparr>items := [] @ (e, ?qi) # pre @ post\<rparr>"
      using None v u p v2 r w
      by (simp add: adjustPosition_def time_After_def list_MoveToFront_def not_less)
    ultimately show ?thesis by (metis append_Nil)
  next
    case (Some m)
    from scanBefore_rev_Some [OF Some] obtain a v b where
      h: "pre = a @ (m, v) # b" "plannedToStartWorkAt v < when"
         "\<forall>x\<in>set b. \<not> plannedToStartWorkAt (snd x) < when" by blast
    from d i h(1) have ma: "m \<notin> fst ` set a" by auto
    from e h(1) have em: "e \<noteq> m" by auto
    have "list_Value m ?its = Some v"
      using ma by (simp add: h(1) list_Value_append)
    moreover have "list_InsertAfter (e, ?qi) m (pre @ post) = a @ (m, v) # (e, ?qi) # b @ post"
      using ma by (simp add: h(1) list_InsertAfter_append)
    ultimately have "list_MoveAfter e m ?its = (a @ [(m, v)]) @ (e, ?qi) # b @ post"
      using v2 r em by (simp add: list_MoveAfter_def)
    then have "adjustPosition q e when = q\<lparr>items := (a @ [(m, v)]) @ (e, ?qi) # b @ post\<rparr>"
      using Some v u p w by (simp add: adjustPosition_def time_After_def not_less)
    moreover have "pre = (a @ [(m, v)]) @ b" using h(1) by simp
    moreover have "plannedToStartWorkAt (snd (last (a @ [(m, v)]))) < when" using h(2) by simp
    moreover have "\<forall>x\<in>set b. when \<le> plannedToStartWorkAt (snd x)"
      using h(3) by (simp add: not_less)
    ultimately show ?thesis by blast
  qed
qed

subsection \<open>Sortedness\<close>

lemma sorted_below_last:
  fixes f :: "'a \<Rightarrow> int"
  assumes "sorted (map f pre)" "pre = [] \<or> f (last pre) < t" "x \<in> set pre"
  shows "f x < t"
proof -
  from assms(3) have ne: "pre \<noteq> []" by auto
  then have "pre = butlast pre @ [last pre]" by simp
  then have "sorted (map f (butlast pre @ [last pre]))" using assms(1) by simp
  then have "\<forall>y\<in>set (butlast pre). f y \<le> f (last pre)"
    by (simp add: sorted_append)
  moreover have "x \<in> set (butlast pre) \<or> x = last pre"
    using assms(3) ne by (metis Un_iff append_butlast_last_id empty_iff empty_set insert_iff list.simps(15) set_append)
  ultimately have "f x \<le> f (last pre)" by auto
  with assms(2) ne show ?thesis by auto
qed

lemma sorted_insert_between:
  fixes f :: "'a \<Rightarrow> int"
  assumes "sorted (map f (pre @ post))" "pre = [] \<or> f (last pre) < f y"
    "\<forall>x\<in>set post. f y \<le> f x"
  shows "sorted (map f (pre @ y # post))"
proof -
  from assms(1) have sp: "sorted (map f pre)" by (simp add: sorted_append)
  have "\<forall>x\<in>set pre. f x < f y" using sorted_below_last [OF sp assms(2)] by blast
  then have "\<forall>x\<in>set pre. f x \<le> f y" by auto
  with assms show ?thesis by (auto simp: sorted_append)
qed

subsection \<open>Preservation of the invariants\<close>

lemma indexed_element:
  assumes "index_matches_list q" "itemsInQueue q k = Some e"
  shows "\<exists>qi. (e, qi) \<in> set (items q) \<and> key qi = k"
proof -
  from assms have "k \<in> set (map (key \<circ> snd) (items q))"
    unfolding index_matches_list_def by (metis domI)
  then obtain x where x: "x \<in> set (items q)" "key (snd x) = k" by auto
  with assms(1) have "itemsInQueue q k = Some (fst x)"
    unfolding index_matches_list_def list_all_iff by auto
  with assms(2) have "fst x = e" by simp
  with x show ?thesis by (metis prod.collapse)
qed

lemma unindexed_key:
  assumes "index_matches_list q" "itemsInQueue q k = None" "x \<in> set (items q)"
  shows "key (snd x) \<noteq> k"
  using assms unfolding index_matches_list_def list_all_iff by auto

lemma queue_inv_rl_calls [simp]: "queue_inv (q\<lparr>rl_calls := c\<rparr>) = queue_inv q"
  by (simp add: queue_inv_def elements_wf_def index_matches_list_def
      pending_inflight_disjoint_def pending_sorted_def)

lemma queue_inv_wakeupCh [simp]: "queue_inv (q\<lparr>wakeupCh := c\<rparr>) = queue_inv q"
  by (simp add: queue_inv_def elements_wf_def index_matches_list_def
      pending_inflight_disjoint_def pending_sorted_def)

lemma queue_inv_running [simp]: "queue_inv (q\<lparr>running := c\<rparr>) = queue_inv q"
  by (simp add: queue_inv_def elements_wf_def index_matches_list_def
      pending_inflight_disjoint_def pending_sorted_def)

lemma queue_inv_place_new:
  assumes inv: "queue_inv q"
    and nq: "itemsInQueue q (key val) = None"
    and np: "itemsBeingProcessed q (key val) = None"
  shows "queue_inv (fst (place_new q val))"
proof -
  let ?q = "fst (place_new q val)"
  let ?n = "next_elem q"
  from inv have wf: "elements_wf q" and ix: "index_matches_list q"
    and dj: "pending_inflight_disjoint q" and so: "pending_sorted q"
    by (simp_all add: queue_inv_def)
  from wf have d: "distinct (map fst (items q))" by (simp add: elements_wf_def)
  from place_new_items [OF d, of val] obtain pre post where
    h: "items q = pre @ post" "items ?q = pre @ (?n, val) # post"
       "pre = [] \<or> plannedToStartWorkAt (snd (last pre)) < plannedToStartWorkAt val"
       "\<forall>x\<in>set post. plannedToStartWorkAt val \<le> plannedToStartWorkAt (snd x)"
    by blast
  have fresh: "\<forall>x\<in>set (items q). fst x < ?n"
    using wf by (simp add: elements_wf_def list_all_iff)
  have newkey: "\<forall>x\<in>set (items q). key (snd x) \<noteq> key val"
    using unindexed_key [OF ix nq] by blast
  have notin: "?n \<notin> fst ` set (items q)" using fresh by auto
  have "elements_wf ?q"
    using d fresh notin unfolding elements_wf_def h(2) place_new_fields list_all_iff h(1)
    by (auto simp: less_Suc_eq)
  moreover have "index_matches_list ?q"
  proof -
    have k0: "\<forall>x\<in>set (pre @ post). key (snd x) \<noteq> key val"
      using newkey unfolding h(1) .
    then have k2: "\<forall>x\<in>set (pre @ post). key val \<noteq> key (snd x)" by metis
    have k1: "key val \<notin> (key \<circ> snd) ` set (pre @ post)"
      using k2 unfolding image_iff comp_apply by blast
    have "distinct (map (key \<circ> snd) (pre @ post))"
      using ix h(1) by (simp add: index_matches_list_def)
    then have a: "distinct (map (key \<circ> snd) (pre @ (?n, val) # post))"
      using k1 by auto
    have "\<forall>x\<in>set (pre @ post). itemsInQueue q (key (snd x)) = Some (fst x)"
      using ix h(1) by (simp add: index_matches_list_def list_all_iff)
    then have b: "\<forall>x\<in>set (pre @ (?n, val) # post).
        ((itemsInQueue q)(key val \<mapsto> ?n)) (key (snd x)) = Some (fst x)"
      using k0 by simp
    have "dom (itemsInQueue q) = set (map (key \<circ> snd) (pre @ post))"
      using ix h(1) by (simp add: index_matches_list_def)
    then have c: "dom ((itemsInQueue q)(key val \<mapsto> ?n)) =
        set (map (key \<circ> snd) (pre @ (?n, val) # post))"
      by auto
    show ?thesis
      unfolding index_matches_list_def h(2) place_new_fields list_all_iff
      using a b c by blast
  qed
  moreover have "pending_inflight_disjoint ?q"
    using dj np unfolding pending_inflight_disjoint_def place_new_fields by auto
  moreover have "pending_sorted ?q"
  proof -
    have "sorted (map (plannedToStartWorkAt \<circ> snd) (pre @ post))"
      using so h(1) by (simp add: pending_sorted_def)
    then have "sorted (map (plannedToStartWorkAt \<circ> snd) (pre @ (?n, val) # post))"
      using h(3) h(4) by (intro sorted_insert_between) simp_all
    then show ?thesis by (simp add: pending_sorted_def h(2))
  qed
  ultimately show ?thesis by (simp add: queue_inv_def)
qed

lemma queue_inv_adjustPosition:
  assumes inv: "queue_inv q" and iq: "itemsInQueue q k = Some e"
  shows "queue_inv (adjustPosition q e when)"
proof -
  from inv have wf: "elements_wf q" and ix: "index_matches_list q"
    and dj: "pending_inflight_disjoint q" and so: "pending_sorted q"
    by (simp_all add: queue_inv_def)
  from wf have d: "distinct (map fst (items q))" by (simp add: elements_wf_def)
  from indexed_element [OF ix iq] obtain qi where qi: "(e, qi) \<in> set (items q)" "key qi = k"
    by blast
  then obtain pre post where i: "items q = pre @ (e, qi) # post"
    by (meson split_list)
  have v: "list_Value e (items q) = Some qi" using d qi(1) by (simp add: list_Value_Some)
  show ?thesis
  proof (cases "plannedToStartWorkAt qi < when")
    case True
    then show ?thesis using adjustPosition_later [OF v] inv by simp
  next
    case False
    then have w: "when \<le> plannedToStartWorkAt qi" by simp
    let ?qi = "qi\<lparr>plannedToStartWorkAt := when\<rparr>"
    from adjustPosition_items [OF d i w] obtain p1 p2 where
      h: "pre = p1 @ p2"
         "adjustPosition q e when = q\<lparr>items := p1 @ (e, ?qi) # p2 @ post\<rparr>"
         "p1 = [] \<or> plannedToStartWorkAt (snd (last p1)) < when"
         "\<forall>x\<in>set p2. when \<le> plannedToStartWorkAt (snd x)"
      by blast
    have old: "items q = p1 @ p2 @ (e, qi) # post" using i h(1) by simp
    have "elements_wf (adjustPosition q e when)"
      using wf unfolding elements_wf_def h(2) old list_all_iff by auto
    moreover have "index_matches_list (adjustPosition q e when)"
      using ix unfolding index_matches_list_def h(2) old list_all_iff by auto
    moreover have "pending_inflight_disjoint (adjustPosition q e when)"
      using dj unfolding pending_inflight_disjoint_def h(2) by simp
    moreover have "pending_sorted (adjustPosition q e when)"
    proof -
      let ?f = "plannedToStartWorkAt \<circ> snd"
      have s0: "sorted (map ?f (p1 @ p2 @ (e, qi) # post))"
        using so old by (simp add: pending_sorted_def)
      then have "sorted (map ?f (p1 @ (p2 @ post)))"
        by (auto simp: sorted_append)
      moreover have "\<forall>x\<in>set (p2 @ post). ?f (e, ?qi) \<le> ?f x"
        using h(4) s0 w by (auto simp: sorted_append)
      moreover have "p1 = [] \<or> ?f (last p1) < ?f (e, ?qi)" using h(3) by simp
      ultimately have "sorted (map ?f (p1 @ (e, ?qi) # (p2 @ post)))"
        by (intro sorted_insert_between)
      then show ?thesis by (simp add: pending_sorted_def h(2))
    qed
    ultimately show ?thesis by (simp add: queue_inv_def)
  qed
qed

lemma list_Update_ids [simp]: "map fst (list_Update e f xs) = map fst xs"
  by (induction xs) auto

lemma list_Update_bound:
  "list_all (\<lambda>x. fst x < n) (list_Update e f xs) = list_all (\<lambda>x. fst x < (n::nat)) xs"
  by (induction xs) auto

lemma list_Update_keys:
  "(\<And>i. key (f i) = key i) \<Longrightarrow> map (key \<circ> snd) (list_Update e f xs) = map (key \<circ> snd) xs"
  by (induction xs) auto

lemma list_Update_planned:
  "(\<And>i. plannedToStartWorkAt (f i) = plannedToStartWorkAt i) \<Longrightarrow>
   map (plannedToStartWorkAt \<circ> snd) (list_Update e f xs) = map (plannedToStartWorkAt \<circ> snd) xs"
  by (induction xs) auto

lemma list_Update_index:
  "(\<And>i. key (f i) = key i) \<Longrightarrow>
   list_all (\<lambda>x. m (key (snd x)) = Some (fst x)) (list_Update e f xs) =
   list_all (\<lambda>x. m (key (snd x)) = Some (fst x)) xs"
  by (induction xs) auto

lemma queue_inv_in_flight:
  assumes "queue_inv q" "dom m \<subseteq> dom (itemsBeingProcessed q)"
  shows "queue_inv (q\<lparr>itemsBeingProcessed := m\<rparr>)"
proof -
  have "elements_wf (q\<lparr>itemsBeingProcessed := m\<rparr>) = elements_wf q"
    by (simp add: elements_wf_def)
  moreover have "index_matches_list (q\<lparr>itemsBeingProcessed := m\<rparr>) = index_matches_list q"
    by (simp add: index_matches_list_def)
  moreover have "pending_sorted (q\<lparr>itemsBeingProcessed := m\<rparr>) = pending_sorted q"
    by (simp add: pending_sorted_def)
  moreover have "pending_inflight_disjoint q \<Longrightarrow>
      pending_inflight_disjoint (q\<lparr>itemsBeingProcessed := m\<rparr>)"
    using assms(2) unfolding pending_inflight_disjoint_def by simp blast
  ultimately show ?thesis using assms(1) by (simp add: queue_inv_def)
qed

lemma queue_inv_items_update:
  assumes "queue_inv q" "\<And>i. key (f i) = key i"
    "\<And>i. plannedToStartWorkAt (f i) = plannedToStartWorkAt i"
  shows "queue_inv (q\<lparr>items := list_Update e f (items q)\<rparr>)"
proof -
  let ?q = "q\<lparr>items := list_Update e f (items q)\<rparr>"
  have "elements_wf ?q = elements_wf q"
    by (simp add: elements_wf_def list_Update_bound)
  moreover have "index_matches_list ?q = index_matches_list q"
    using list_Update_keys [of f e "items q", OF assms(2)]
      list_Update_index [of f "itemsInQueue q" e "items q", OF assms(2)]
    by (simp add: index_matches_list_def)
  moreover have "pending_sorted ?q = pending_sorted q"
    using list_Update_planned [of f e "items q", OF assms(3)]
    by (simp add: pending_sorted_def)
  moreover have "pending_inflight_disjoint ?q = pending_inflight_disjoint q"
    by (simp add: pending_inflight_disjoint_def)
  ultimately show ?thesis using assms(1) by (simp add: queue_inv_def)
qed

lemma queue_inv_update_ref:
  assumes "queue_inv q" "\<And>i. key (f i) = key i"
    "\<And>i. plannedToStartWorkAt (f i) = plannedToStartWorkAt i"
  shows "queue_inv (update_ref r f q)"
proof (cases r)
  case (InFlight k)
  show ?thesis
  proof (cases "itemsBeingProcessed q k")
    case None
    with InFlight assms(1) show ?thesis by (simp add: update_ref_def)
  next
    case (Some i)
    then have "dom ((itemsBeingProcessed q)(k \<mapsto> f i)) \<subseteq> dom (itemsBeingProcessed q)"
      by auto
    from queue_inv_in_flight [OF assms(1) this] InFlight Some show ?thesis
      by (simp add: update_ref_def)
  qed
next
  case (InList e)
  with queue_inv_items_update [OF assms, of e] show ?thesis
    by (simp add: update_ref_def)
qed

lemma queue_inv_in_flight_update:
  assumes "queue_inv q" "itemsBeingProcessed q k = Some i"
  shows "queue_inv (q\<lparr>itemsBeingProcessed := (itemsBeingProcessed q)(k \<mapsto> j)\<rparr>)"
  using assms(2) by (intro queue_inv_in_flight [OF assms(1)]) auto

lemma queue_inv_in_flight_delete:
  assumes "queue_inv q"
  shows "queue_inv (q\<lparr>itemsBeingProcessed := (itemsBeingProcessed q)(k := None)\<rparr>)"
  by (intro queue_inv_in_flight [OF assms]) auto

lemma insert_queue_in_flight:
  assumes "itemsBeingProcessed q k = Some item"
  shows "insert_queue ev q k ratelimit delay =
    Inr (q\<lparr>itemsBeingProcessed := (itemsBeingProcessed q)(k \<mapsto>
            (if IsZero (redirtiedAt item) \<or> time_Before (time_Add (clock_now ev) delay) (redirtiedAt item)
             then item\<lparr>redirtiedAt := time_Add (clock_now ev) delay,
                       redirtiedWithRatelimit := ratelimit\<rparr>
             else item)\<lparr>forget := False\<rparr>),
           wakeupCh := True\<rparr>, InFlight k)"
  using assms by (simp add: insert_queue_def Let_def)

lemma insert_queue_pending:
  assumes "itemsBeingProcessed q k = None" "itemsInQueue q k = Some e"
  shows "insert_queue ev q k ratelimit delay =
    Inr ((adjustPosition q e (time_Add (clock_now ev) delay))\<lparr>wakeupCh := True\<rparr>, InList e)"
  using assms by (simp add: insert_queue_def Let_def)

lemma insert_queue_new:
  assumes "itemsBeingProcessed q k = None" "itemsInQueue q k = None"
  shows "insert_queue ev q k False delay =
    Inr (place_new q ((new_queueItem k (clock_now ev))
           \<lparr>plannedToStartWorkAt := time_Add (clock_now ev) delay\<rparr>))"
  using assms by (simp add: insert_queue_def Let_def)

lemma insert_queue_new_ratelimit:
  assumes "itemsBeingProcessed q k = None" "itemsInQueue q k = None"
  shows "insert_queue ev q k True delay =
    (if 0 < delay then Inl NonZeroDelayWithRateLimit
     else Inr (place_new (q\<lparr>rl_calls := rl_calls q @ [RL_When k]\<rparr>)
           ((new_queueItem k (clock_now ev))
              \<lparr>plannedToStartWorkAt := time_Add (clock_now ev) (ratelimiter_When ev (rl_calls q) k),
               delayedViaRateLimit := Some (ratelimiter_When ev (rl_calls q) k)\<rparr>)))"
  using assms by (simp add: insert_queue_def Let_def)

lemma insert_queue_panics:
  "(\<exists>p. insert_queue ev q k ratelimit delay = Inl p) \<longleftrightarrow>
   itemsBeingProcessed q k = None \<and> itemsInQueue q k = None \<and> ratelimit \<and> 0 < delay"
proof (cases "itemsBeingProcessed q k")
  case (Some item)
  then show ?thesis by (simp add: insert_queue_in_flight)
next
  case None
  show ?thesis
  proof (cases "itemsInQueue q k")
    case (Some e)
    with None show ?thesis by (simp add: insert_queue_pending)
  next
    case nq: None
    show ?thesis
    proof (cases ratelimit)
      case True
      with None nq show ?thesis by (simp add: insert_queue_new_ratelimit)
    next
      case False
      with None nq show ?thesis by (simp add: insert_queue_new)
    qed
  qed
qed

lemma queue_inv_insert_queue:
  assumes inv: "queue_inv q" and r: "insert_queue ev q k ratelimit delay = Inr (q', ref)"
  shows "queue_inv q'"
proof (cases "itemsBeingProcessed q k")
  case (Some item)
  from r have "q' = fst (projr (insert_queue ev q k ratelimit delay))" by simp
  then show ?thesis
    unfolding insert_queue_in_flight [OF Some]
    using queue_inv_in_flight_update [OF inv Some] by simp
next
  case None
  show ?thesis
  proof (cases "itemsInQueue q k")
    case (Some e)
    from r have "q' = (adjustPosition q e (time_Add (clock_now ev) delay))\<lparr>wakeupCh := True\<rparr>"
      unfolding insert_queue_pending [OF None Some] by simp
    then show ?thesis using queue_inv_adjustPosition [OF inv Some] by simp
  next
    case nq: None
    have pn: "\<And>q0 val. queue_inv q0 \<Longrightarrow> itemsInQueue q0 = itemsInQueue q \<Longrightarrow>
        itemsBeingProcessed q0 = itemsBeingProcessed q \<Longrightarrow> key val = k \<Longrightarrow>
        queue_inv (fst (place_new q0 val))"
      using None nq by (intro queue_inv_place_new) simp_all
    show ?thesis
    proof (cases ratelimit)
      case True
      with r have "insert_queue ev q k True delay = Inr (q', ref)" by simp
      then have "q' = fst (place_new (q\<lparr>rl_calls := rl_calls q @ [RL_When k]\<rparr>)
           ((new_queueItem k (clock_now ev))
              \<lparr>plannedToStartWorkAt := time_Add (clock_now ev) (ratelimiter_When ev (rl_calls q) k),
               delayedViaRateLimit := Some (ratelimiter_When ev (rl_calls q) k)\<rparr>))"
        unfolding insert_queue_new_ratelimit [OF None nq] by (simp split: if_splits)
      then show ?thesis using inv by (simp add: pn new_queueItem_def)
    next
      case False
      with r have "insert_queue ev q k False delay = Inr (q', ref)" by simp
      then have "q' = fst (place_new q ((new_queueItem k (clock_now ev))
           \<lparr>plannedToStartWorkAt := time_Add (clock_now ev) delay\<rparr>))"
        unfolding insert_queue_new [OF None nq] by simp
      then show ?thesis using inv by (simp add: pn new_queueItem_def)
    qed
  qed
qed

lemma queue_inv_New: "queue_inv New"
  by (simp add: New_def queue_inv_def elements_wf_def index_matches_list_def
      pending_inflight_disjoint_def pending_sorted_def)

lemma queue_inv_remove:
  assumes inv: "queue_inv q" and i: "items q = pre @ (e, qi) # post"
  shows "queue_inv (q\<lparr>items := pre @ post, itemsInQueue := (itemsInQueue q)(key qi := None)\<rparr>)"
proof -
  let ?q = "q\<lparr>items := pre @ post, itemsInQueue := (itemsInQueue q)(key qi := None)\<rparr>"
  from inv have wf: "elements_wf q" and ix: "index_matches_list q"
    and dj: "pending_inflight_disjoint q" and so: "pending_sorted q"
    by (simp_all add: queue_inv_def)
  have "elements_wf ?q" using wf unfolding elements_wf_def i by auto
  moreover have "index_matches_list ?q"
  proof -
    have dk: "distinct (map (key \<circ> snd) (pre @ (e, qi) # post))"
      using ix i by (simp add: index_matches_list_def)
    then have "key qi \<notin> (key \<circ> snd) ` set (pre @ post)" by auto
    then have k0: "\<forall>x\<in>set (pre @ post). key (snd x) \<noteq> key qi"
      unfolding image_iff comp_apply by metis
    have a: "distinct (map (key \<circ> snd) (pre @ post))" using dk by auto
    have "\<forall>x\<in>set (pre @ post). itemsInQueue q (key (snd x)) = Some (fst x)"
      using ix i by (simp add: index_matches_list_def list_all_iff)
    then have b: "\<forall>x\<in>set (pre @ post).
        ((itemsInQueue q)(key qi := None)) (key (snd x)) = Some (fst x)"
      using k0 by simp
    define S where "S = set (map (key \<circ> snd) (pre @ post))"
    have kn: "key qi \<notin> S" using dk unfolding S_def by auto
    have "dom (itemsInQueue q) = set (map (key \<circ> snd) (pre @ (e, qi) # post))"
      using ix i by (simp add: index_matches_list_def)
    also have "\<dots> = insert (key qi) S" unfolding S_def by auto
    finally have "dom ((itemsInQueue q)(key qi := None)) = S" using kn by auto
    then have c: "dom ((itemsInQueue q)(key qi := None)) = set (map (key \<circ> snd) (pre @ post))"
      unfolding S_def .
    show ?thesis unfolding index_matches_list_def list_all_iff using a b c by simp
  qed
  moreover have "pending_inflight_disjoint ?q"
    using dj unfolding pending_inflight_disjoint_def by simp blast
  moreover have "pending_sorted ?q"
    using so unfolding pending_sorted_def i by (auto simp: sorted_append)
  ultimately show ?thesis by (simp add: queue_inv_def)
qed

lemma queue_inv_take_in_flight:
  assumes inv: "queue_inv q" and n: "itemsInQueue q k = None"
  shows "queue_inv (q\<lparr>itemsBeingProcessed := (itemsBeingProcessed q)(k \<mapsto> i)\<rparr>)"
proof -
  let ?q = "q\<lparr>itemsBeingProcessed := (itemsBeingProcessed q)(k \<mapsto> i)\<rparr>"
  have "elements_wf ?q = elements_wf q" by (simp add: elements_wf_def)
  moreover have "index_matches_list ?q = index_matches_list q"
    by (simp add: index_matches_list_def)
  moreover have "pending_sorted ?q = pending_sorted q" by (simp add: pending_sorted_def)
  moreover have "pending_inflight_disjoint q \<Longrightarrow> pending_inflight_disjoint ?q"
    using n unfolding pending_inflight_disjoint_def by simp blast
  ultimately show ?thesis using inv by (simp add: queue_inv_def)
qed

lemma queue_inv_Forget:
  assumes inv: "queue_inv q"
  shows "queue_inv (Forget q k)"
proof (cases "itemsInQueue q k")
  case (Some e)
  from inv have ix: "index_matches_list q" and wf: "elements_wf q"
    by (simp_all add: queue_inv_def)
  from indexed_element [OF ix Some] obtain qi where qi: "(e, qi) \<in> set (items q)" "key qi = k"
    by blast
  then obtain pre post where i: "items q = pre @ (e, qi) # post" by (meson split_list)
  from wf i have "e \<notin> fst ` set pre" by (auto simp: elements_wf_def)
  then have "list_Remove e (items q) = pre @ post" by (simp add: i list_Remove_append)
  with Some have F: "Forget q k =
      q\<lparr>items := pre @ post, itemsInQueue := (itemsInQueue q)(k := None)\<rparr>"
    by (cases q) (simp add: Forget_def)
  show ?thesis unfolding F using queue_inv_remove [OF inv i] qi(2) by simp
next
  case None
  show ?thesis
  proof (cases "itemsBeingProcessed q k")
    case n: None
    with None inv show ?thesis by (simp add: Forget_def)
  next
    case (Some qi)
    with None queue_inv_in_flight_update [OF inv Some] show ?thesis by (simp add: Forget_def)
  qed
qed

lemma queue_inv_getNextItem_pass:
  assumes inv: "queue_inv q"
  shows "queue_inv (fst (getNextItem_pass ev q))"
proof (cases "items q")
  case Nil
  with inv show ?thesis by (simp add: getNextItem_pass_def)
next
  case (Cons x rest)
  obtain e qi where x: "x = (e, qi)" by (cases x)
  show ?thesis
  proof (cases "time_Until (wall_now ev) (plannedToStartWorkAt qi) \<le> 0")
    case False
    with inv Cons x show ?thesis by (simp add: getNextItem_pass_def)
  next
    case True
    let ?q1 = "q\<lparr>items := [] @ rest, itemsInQueue := (itemsInQueue q)(key qi := None)\<rparr>"
    have i: "items q = [] @ (e, qi) # rest" using Cons x by simp
    have "queue_inv ?q1" by (rule queue_inv_remove [OF inv i])
    then have "queue_inv (?q1\<lparr>itemsBeingProcessed := (itemsBeingProcessed ?q1)(key qi \<mapsto> qi)\<rparr>)"
      by (rule queue_inv_take_in_flight) simp
    moreover have "fst (getNextItem_pass ev q) =
        ?q1\<lparr>itemsBeingProcessed := (itemsBeingProcessed ?q1)(key qi \<mapsto> qi)\<rparr>"
      using Cons x True by (simp add: getNextItem_pass_def)
    ultimately show ?thesis by simp
  qed
qed

lemma queue_inv_handleQueueItemObject:
  assumes inv: "queue_inv q" and r: "handleQueueItemObject ev q qi err = Inr (q', e)"
  shows "queue_inv q'"
proof -
  let ?q1 = "q\<lparr>itemsBeingProcessed := (itemsBeingProcessed q)(key qi := None)\<rparr>"
  have i1: "queue_inv ?q1" by (rule queue_inv_in_flight_delete [OF inv])
  show ?thesis
  proof (cases "forget qi")
    case True
    with r i1 show ?thesis
      by (auto simp: handleQueueItemObject_def Let_def ratelimiter_Forget_def)
  next
    case nf: False
    show ?thesis
    proof (cases "err \<noteq> None \<and> requeues qi + 1 <s MaxRetries")
      case True
      with nf r obtain q2 newQI where
        h: "insert_queue ev ?q1 (key qi) True 0 = Inr (q2, newQI)"
           "q' = update_ref newQI (\<lambda>i. i\<lparr>requeues := requeues qi + 1,
                   originallyAdded := originallyAdded qi\<rparr>) q2"
        by (auto simp: handleQueueItemObject_def Let_def split: sum.splits)
      from queue_inv_insert_queue [OF i1 h(1)] have "queue_inv q2" .
      then show ?thesis unfolding h(2) by (rule queue_inv_update_ref) simp_all
    next
      case False
      let ?q2 = "ratelimiter_Forget ?q1 (key qi)"
      have i2: "queue_inv ?q2" using i1 by (simp add: ratelimiter_Forget_def)
      show ?thesis
      proof (cases "IsZero (redirtiedAt qi)")
        case True
        with nf False r i2 show ?thesis
          by (auto simp: handleQueueItemObject_def Let_def)
      next
        case nz: False
        with nf False r obtain q3 newQI where
          h: "insert_queue ev ?q2 (key qi) (redirtiedWithRatelimit qi)
                (time_Until (wall_now ev) (redirtiedAt qi)) = Inr (q3, newQI)"
             "q' = update_ref newQI (\<lambda>i. i\<lparr>addedViaRedirty := True\<rparr>) q3"
          by (auto simp: handleQueueItemObject_def Let_def split: sum.splits)
        from queue_inv_insert_queue [OF i2 h(1)] have "queue_inv q3" .
        then show ?thesis unfolding h(2) by (rule queue_inv_update_ref) simp_all
      qed
    qed
  qed
qed

subsection \<open>Facts used by several claims\<close>

lemma queue_inv_q_ex: "queue_inv q_ex"
  by (auto simp: q_ex_def queue_inv_def elements_wf_def index_matches_list_def
      pending_inflight_disjoint_def pending_sorted_def item_ex_def new_queueItem_def)

lemma completion_q_ex:
  "\<exists>q' e. handleQueueItemObject ev_ex q_ex ((item_ex ''c'' 20)\<lparr>redirtiedAt := 90\<rparr>) None = Inr (q', e)"
  by (simp add: handleQueueItemObject_def q_ex_def ev_ex_def item_ex_def new_queueItem_def
      Let_def IsZero_def insert_queue_def ratelimiter_Forget_def place_new_def)

lemma Forget_pending_items:
  assumes inv: "queue_inv q" and iq: "itemsInQueue q k = Some e"
  shows "list_Remove e (items q) = filter (\<lambda>x. key (snd x) \<noteq> k) (items q)"
proof -
  from inv have ix: "index_matches_list q" and wf: "elements_wf q"
    by (simp_all add: queue_inv_def)
  from indexed_element [OF ix iq] obtain qi where qi: "(e, qi) \<in> set (items q)" "key qi = k"
    by blast
  then obtain pre post where i: "items q = pre @ (e, qi) # post" by (meson split_list)
  from wf i have "e \<notin> fst ` set pre" by (auto simp: elements_wf_def)
  then have r: "list_Remove e (items q) = pre @ post" by (simp add: i list_Remove_append)
  have dk: "distinct (map (key \<circ> snd) (pre @ (e, qi) # post))"
    using ix i by (simp add: index_matches_list_def)
  then have "k \<notin> (key \<circ> snd) ` set (pre @ post)" using qi(2) by auto
  then have "\<forall>x\<in>set (pre @ post). key (snd x) \<noteq> k"
    unfolding image_iff comp_apply by metis
  then have "filter (\<lambda>x. key (snd x) \<noteq> k) (pre @ post) = pre @ post"
    by (simp add: filter_id_conv)
  then have "filter (\<lambda>x. key (snd x) \<noteq> k) (items q) = pre @ post"
    using qi(2) by (simp add: i)
  with r show ?thesis by simp
qed

lemma Inl_map_sum_fst: "(\<exists>p. map_sum id f x = Inl p) \<longleftrightarrow> (\<exists>p. x = Inl p)"
  by (cases x) simp_all

lemma pending_not_in_flight:
  assumes "queue_inv q" "itemsInQueue q k = Some e"
  shows "itemsBeingProcessed q k = None"
  using assms unfolding queue_inv_def pending_inflight_disjoint_def
  by (meson disjoint_iff domI domIff)

lemma key_new_queueItem: "key (new_queueItem k t) = k"
  by (simp add: new_queueItem_def)

lemma place_new_then_update:
  assumes wf: "elements_wf q"
  shows "\<exists>its. update_ref (snd (place_new q val)) f (fst (place_new q val)) =
           (fst (place_new q val))\<lparr>items := its\<rparr> \<and>
         list_Remove (next_elem q) its = items q \<and>
         list_Value (next_elem q) its = Some (f val)"
proof -
  let ?n = "next_elem q"
  from wf have d: "distinct (map fst (items q))" by (simp add: elements_wf_def)
  from place_new_items [OF d, of val] obtain pre post where
    h: "items q = pre @ post" "items (fst (place_new q val)) = pre @ (?n, val) # post"
    by blast
  have "\<forall>x\<in>set (items q). fst x < ?n"
    using wf by (simp add: elements_wf_def list_all_iff)
  then have "?n \<notin> fst ` set (items q)" by force
  then have n: "?n \<notin> fst ` set pre" using h(1) by auto
  have "update_ref (snd (place_new q val)) f (fst (place_new q val)) =
      (fst (place_new q val))\<lparr>items := pre @ (?n, f val) # post\<rparr>"
    using n by (simp add: place_new_fields update_ref_def h(2) list_Update_append)
  moreover have "list_Remove ?n (pre @ (?n, f val) # post) = items q"
    using n by (simp add: h(1) list_Remove_append)
  moreover have "list_Value ?n (pre @ (?n, f val) # post) = Some (f val)"
    using n by (rule list_Value_append)
  ultimately show ?thesis by blast
qed

subsection \<open>Where insert puts a new item\<close>

lemma insert_queue_new_placement:
  assumes inv: "queue_inv q"
    and np: "itemsBeingProcessed q k = None" and nq: "itemsInQueue q k = None"
    and r: "insert_queue ev q k ratelimit delay = Inr (q', ref)"
  shows "\<exists>pre post val. items q = pre @ post \<and>
           items q' = pre @ (next_elem q, val) # post \<and> key val = k \<and>
           plannedToStartWorkAt val =
             (if ratelimit then clock_now ev + ratelimiter_When ev (rl_calls q) k
              else clock_now ev + delay) \<and>
           (\<forall>x\<in>set pre. plannedToStartWorkAt (snd x) < plannedToStartWorkAt val) \<and>
           (\<forall>x\<in>set post. plannedToStartWorkAt val \<le> plannedToStartWorkAt (snd x))"
proof -
  let ?f = "plannedToStartWorkAt \<circ> snd"
  have pl: "\<exists>pre post. items q0 = pre @ post \<and>
           items (fst (place_new q0 val)) = pre @ (next_elem q0, val) # post \<and>
           (\<forall>x\<in>set pre. plannedToStartWorkAt (snd x) < plannedToStartWorkAt val) \<and>
           (\<forall>x\<in>set post. plannedToStartWorkAt val \<le> plannedToStartWorkAt (snd x))"
    if q0: "items q0 = items q" for q0 val
  proof -
    have d: "distinct (map fst (items q0))"
      using inv q0 by (simp add: queue_inv_def elements_wf_def)
    from place_new_items [OF d, of val] obtain pre post where
      h: "items q0 = pre @ post" "items (fst (place_new q0 val)) = pre @ (next_elem q0, val) # post"
         "pre = [] \<or> plannedToStartWorkAt (snd (last pre)) < plannedToStartWorkAt val"
         "\<forall>x\<in>set post. plannedToStartWorkAt val \<le> plannedToStartWorkAt (snd x)"
      by blast
    have "sorted (map ?f (pre @ post))"
      using inv q0 h(1) by (simp add: queue_inv_def pending_sorted_def)
    then have sp: "sorted (map ?f pre)" by (simp add: sorted_append)
    have "pre = [] \<or> ?f (last pre) < plannedToStartWorkAt val" using h(3) by simp
    from sorted_below_last [OF sp this]
    have "\<forall>x\<in>set pre. plannedToStartWorkAt (snd x) < plannedToStartWorkAt val" by simp
    with h(1) h(2) h(4) show ?thesis by blast
  qed
  show ?thesis
  proof (cases ratelimit)
    case True
    let ?q0 = "q\<lparr>rl_calls := rl_calls q @ [RL_When k]\<rparr>"
    let ?val = "(new_queueItem k (clock_now ev))
        \<lparr>plannedToStartWorkAt := time_Add (clock_now ev) (ratelimiter_When ev (rl_calls q) k),
         delayedViaRateLimit := Some (ratelimiter_When ev (rl_calls q) k)\<rparr>"
    from r True have "insert_queue ev q k True delay = Inr (q', ref)" by simp
    then have q': "q' = fst (place_new ?q0 ?val)"
      unfolding insert_queue_new_ratelimit [OF np nq] by (simp split: if_splits)
    from pl [of ?q0 ?val] obtain pre post where
      "items ?q0 = pre @ post" "items (fst (place_new ?q0 ?val)) = pre @ (next_elem ?q0, ?val) # post"
      "\<forall>x\<in>set pre. plannedToStartWorkAt (snd x) < plannedToStartWorkAt ?val"
      "\<forall>x\<in>set post. plannedToStartWorkAt ?val \<le> plannedToStartWorkAt (snd x)"
      by auto
    then have "items q = pre @ post \<and> items q' = pre @ (next_elem q, ?val) # post \<and>
        key ?val = k \<and>
        plannedToStartWorkAt ?val =
          (if ratelimit then clock_now ev + ratelimiter_When ev (rl_calls q) k
           else clock_now ev + delay) \<and>
        (\<forall>x\<in>set pre. plannedToStartWorkAt (snd x) < plannedToStartWorkAt ?val) \<and>
        (\<forall>x\<in>set post. plannedToStartWorkAt ?val \<le> plannedToStartWorkAt (snd x))"
      using q' True by (simp add: key_new_queueItem time_Add_def)
    then show ?thesis by blast
  next
    case False
    let ?val = "(new_queueItem k (clock_now ev))
        \<lparr>plannedToStartWorkAt := time_Add (clock_now ev) delay\<rparr>"
    from r False have "insert_queue ev q k False delay = Inr (q', ref)" by simp
    then have q': "q' = fst (place_new q ?val)"
      unfolding insert_queue_new [OF np nq] by simp
    from pl [of q ?val] obtain pre post where
      "items q = pre @ post" "items (fst (place_new q ?val)) = pre @ (next_elem q, ?val) # post"
      "\<forall>x\<in>set pre. plannedToStartWorkAt (snd x) < plannedToStartWorkAt ?val"
      "\<forall>x\<in>set post. plannedToStartWorkAt ?val \<le> plannedToStartWorkAt (snd x)"
      by auto
    then have "items q = pre @ post \<and> items q' = pre @ (next_elem q, ?val) # post \<and>
        key ?val = k \<and>
        plannedToStartWorkAt ?val =
          (if ratelimit then clock_now ev + ratelimiter_When ev (rl_calls q) k
           else clock_now ev + delay) \<and>
        (\<forall>x\<in>set pre. plannedToStartWorkAt (snd x) < plannedToStartWorkAt ?val) \<and>
        (\<forall>x\<in>set post. plannedToStartWorkAt ?val \<le> plannedToStartWorkAt (snd x))"
      using q' False by (simp add: key_new_queueItem time_Add_def)
    then show ?thesis by blast
  qed
qed

subsection \<open>Panics and the running flag\<close>

lemma insert_queue_panic_value:
  "insert_queue ev q k ratelimit delay = Inl p \<longleftrightarrow>
   itemsBeingProcessed q k = None \<and> itemsInQueue q k = None \<and> ratelimit \<and> 0 < delay \<and>
   p = NonZeroDelayWithRateLimit"
proof (cases "itemsBeingProcessed q k")
  case (Some item)
  then show ?thesis by (simp add: insert_queue_in_flight)
next
  case None
  show ?thesis
  proof (cases "itemsInQueue q k")
    case (Some e)
    with None show ?thesis by (simp add: insert_queue_pending)
  next
    case nq: None
    show ?thesis
    proof (cases ratelimit)
      case True
      with None nq show ?thesis by (auto simp: insert_queue_new_ratelimit)
    next
      case False
      with None nq show ?thesis by (simp add: insert_queue_new)
    qed
  qed
qed

lemma handleQueueItemObject_panic_value:
  "handleQueueItemObject ev q qi err = Inl p \<longleftrightarrow>
   \<not> forget qi \<and> (err = None \<or> \<not> requeues qi + 1 <s MaxRetries) \<and>
   redirtiedAt qi \<noteq> 0 \<and> redirtiedWithRatelimit qi \<and>
   0 < time_Until (wall_now ev) (redirtiedAt qi) \<and> itemsInQueue q (key qi) = None \<and>
   p = NonZeroDelayWithRateLimit"
proof -
  let ?q1 = "q\<lparr>itemsBeingProcessed := (itemsBeingProcessed q)(key qi := None)\<rparr>"
  let ?q2 = "ratelimiter_Forget ?q1 (key qi)"
  have a: "insert_queue ev ?q1 (key qi) True 0 \<noteq> Inl p"
    by (simp add: insert_queue_panic_value)
  have b: "insert_queue ev ?q2 (key qi) (redirtiedWithRatelimit qi)
        (time_Until (wall_now ev) (redirtiedAt qi)) = Inl p \<longleftrightarrow>
      itemsInQueue q (key qi) = None \<and> redirtiedWithRatelimit qi \<and>
      0 < time_Until (wall_now ev) (redirtiedAt qi) \<and> p = NonZeroDelayWithRateLimit"
    by (auto simp: insert_queue_panic_value ratelimiter_Forget_def)
  show ?thesis
  proof (cases "forget qi")
    case True
    then show ?thesis by (simp add: handleQueueItemObject_def)
  next
    case nf: False
    show ?thesis
    proof (cases "err \<noteq> None \<and> requeues qi + 1 <s MaxRetries")
      case True
      with nf a show ?thesis
        by (auto simp: handleQueueItemObject_def Let_def split: sum.splits)
    next
      case False
      show ?thesis
      proof (cases "redirtiedAt qi = 0")
        case True
        with nf False show ?thesis
          by (auto simp: handleQueueItemObject_def Let_def IsZero_def)
      next
        case nz: False
        have "handleQueueItemObject ev q qi err = Inl p \<longleftrightarrow>
            insert_queue ev ?q2 (key qi) (redirtiedWithRatelimit qi)
              (time_Until (wall_now ev) (redirtiedAt qi)) = Inl p"
          using nf False nz
          by (auto simp: handleQueueItemObject_def Let_def IsZero_def split: sum.splits)
        with b nf False nz show ?thesis by auto
      qed
    qed
  qed
qed

lemma worker_panic_value:
  "worker fuel handler ev q calls = Panicked p \<Longrightarrow> p = NonZeroDelayWithRateLimit"
proof (induction fuel arbitrary: ev q calls)
  case 0
  then show ?case by (simp add: worker.simps)
next
  case (Suc fuel)
  obtain q1 r where g: "getNextItem_pass ev q = (q1, r)" by (cases "getNextItem_pass ev q")
  show ?case
  proof (cases r)
    case NoItem
    with Suc g show ?thesis by (auto simp: worker.simps split: if_splits)
  next
    case (Sleep t)
    with Suc g show ?thesis by (auto simp: worker.simps split: if_splits)
  next
    case (Ready qi)
    show ?thesis
    proof (cases "handleQueueItemObject ev q1 qi (handler (key qi))")
      case (Inl p')
      with Suc.prems g Ready have "p' = p" by (simp add: worker.simps)
      with Inl handleQueueItemObject_panic_value [of ev q1 qi "handler (key qi)" p]
      show ?thesis by simp
    next
      case (Inr x)
      obtain q2 e where "x = (q2, e)" by (cases x)
      with Inr Suc.prems g Ready have "worker fuel handler ev q2 (Suc calls) = Panicked p"
        by (simp add: worker.simps)
      then show ?thesis by (rule Suc.IH)
    qed
  qed
qed

lemma Len_invariant:
  assumes "queue_inv q"
  shows "Len q = Inr (length (items q) + card (dom (itemsBeingProcessed q)))"
proof -
  from assms have "distinct (map (key \<circ> snd) (items q))"
    and "dom (itemsInQueue q) = set (map (key \<circ> snd) (items q))"
    by (simp_all add: queue_inv_def index_matches_list_def)
  then have "card (dom (itemsInQueue q)) = length (map (key \<circ> snd) (items q))"
    by (simp only: distinct_card)
  then show ?thesis by (simp add: Len_def)
qed

lemma running_adjustPosition: "running (adjustPosition q e w) = running q"
  by (simp add: adjustPosition_def Let_def split: option.splits)

lemma running_update_ref: "running (update_ref r f q) = running q"
  by (simp add: update_ref_def split: item_ref.splits option.splits)

lemma running_insert_queue:
  assumes "insert_queue ev q k ratelimit delay = Inr (q', r)"
  shows "running q' = running q"
proof (cases "itemsBeingProcessed q k")
  case (Some item)
  with assms show ?thesis by (auto simp: insert_queue_in_flight)
next
  case None
  show ?thesis
  proof (cases "itemsInQueue q k")
    case (Some e)
    with None assms show ?thesis by (auto simp: insert_queue_pending running_adjustPosition)
  next
    case nq: None
    show ?thesis
    proof (cases ratelimit)
      case True
      with assms have "insert_queue ev q k True delay = Inr (q', r)" by simp
      then have "q' = fst (place_new (q\<lparr>rl_calls := rl_calls q @ [RL_When k]\<rparr>)
           ((new_queueItem k (clock_now ev))
              \<lparr>plannedToStartWorkAt := time_Add (clock_now ev) (ratelimiter_When ev (rl_calls q) k),
               delayedViaRateLimit := Some (ratelimiter_When ev (rl_calls q) k)\<rparr>))"
        unfolding insert_queue_new_ratelimit [OF None nq] by (simp split: if_splits)
      then show ?thesis by (simp add: place_new_fields)
    next
      case False
      with assms have "insert_queue ev q k False delay = Inr (q', r)" by simp
      then have "q' = fst (place_new q ((new_queueItem k (clock_now ev))
           \<lparr>plannedToStartWorkAt := time_Add (clock_now ev) delay\<rparr>))"
        unfolding insert_queue_new [OF None nq] by simp
      then show ?thesis by (simp add: place_new_fields)
    qed
  qed
qed

lemma running_handleQueueItemObject:
  assumes "handleQueueItemObject ev q qi err = Inr (q', e)"
  shows "running q' = running q"
proof -
  let ?q1 = "q\<lparr>itemsBeingProcessed := (itemsBeingProcessed q)(key qi := None)\<rparr>"
  let ?q2 = "ratelimiter_Forget ?q1 (key qi)"
  have i: "running q3 = running q0" if "insert_queue ev q0 k rl d = Inr (q3, r)"
    for q0 q3 k rl d r using that by (rule running_insert_queue)
  show ?thesis
  proof (cases "forget qi")
    case True
    with assms show ?thesis by (auto simp: handleQueueItemObject_def ratelimiter_Forget_def)
  next
    case nf: False
    show ?thesis
    proof (cases "err \<noteq> None \<and> requeues qi + 1 <s MaxRetries")
      case True
      with nf assms obtain q2 r where
        "insert_queue ev ?q1 (key qi) True 0 = Inr (q2, r)"
        "q' = update_ref r (\<lambda>i. i\<lparr>requeues := requeues qi + 1,
                   originallyAdded := originallyAdded qi\<rparr>) q2"
        by (auto simp: handleQueueItemObject_def Let_def split: sum.splits)
      then show ?thesis using i by (simp add: running_update_ref)
    next
      case False
      show ?thesis
      proof (cases "IsZero (redirtiedAt qi)")
        case True
        with nf False assms show ?thesis
          by (auto simp: handleQueueItemObject_def Let_def ratelimiter_Forget_def)
      next
        case nz: False
        with nf False assms obtain q3 r where
          "insert_queue ev ?q2 (key qi) (redirtiedWithRatelimit qi)
                (time_Until (wall_now ev) (redirtiedAt qi)) = Inr (q3, r)"
          "q' = update_ref r (\<lambda>i. i\<lparr>addedViaRedirty := True\<rparr>) q3"
          by (auto simp: handleQueueItemObject_def Let_def split: sum.splits)
        then show ?thesis using i by (simp add: running_update_ref ratelimiter_Forget_def)
      qed
    qed
  qed
qed

lemma running_getNextItem_pass: "running (fst (getNextItem_pass ev q)) = running q"
  by (simp add: getNextItem_pass_def Let_def split: list.splits)

lemma running_Forget: "running (Forget q k) = running q"
  by (simp add: Forget_def split: option.splits)

lemma worker_outcomes:
  "(\<exists>ev' q' n. worker fuel handler ev q calls = Blocked ev' q' n) \<or>
   worker fuel handler ev q calls = OutOfFuel \<or>
   worker fuel handler ev q calls = Panicked NonZeroDelayWithRateLimit"
proof (cases "worker fuel handler ev q calls")
  case (Panicked p)
  with worker_panic_value [of fuel handler ev q calls p] show ?thesis by simp
qed auto

lemma Run_panic_value:
  "Run fuel handler L ctxLogger ev q workers = Panicked p \<longleftrightarrow>
     workers \<le> 0 \<and> p = WorkersNotPositive \<or>
     0 < workers \<and> running q \<and> p = AlreadyRunning \<or>
     0 < workers \<and> \<not> running q \<and> L = None \<and> ctxLogger = None \<and>
       p = DefaultLoggerNotInitialized \<or>
     0 < workers \<and> \<not> running q \<and> \<not> (L = None \<and> ctxLogger = None) \<and>
       p = NonZeroDelayWithRateLimit \<and>
       worker fuel handler ev (q\<lparr>running := True\<rparr>) 0 = Panicked NonZeroDelayWithRateLimit"
  using worker_panic_value [of fuel handler ev "q\<lparr>running := True\<rparr>" 0 p]
  by (auto simp: Run_def Run_enter_def GetLogger_def split: option.splits)

subsection \<open>The folds of PodRequestsAndLimits\<close>



lemma requested_Nil [simp]: "requested [] name = []"
  by (simp add: requested_def List.map_filter_simps)







subsection \<open>The run of one worker\<close>

lemma small_requeues:
  assumes "r < 19"
  shows "(of_nat r + 1 :: 64 word) <s MaxRetries"
proof -
  from assms have "r \<in> {0, 1, 2, 3, 4, 5, 6, 7, 8, 9, 10, 11, 12, 13, 14, 15, 16, 17, 18}"
    by simp presburger
  then show ?thesis by (auto simp: MaxRetries_def word_sless_alt)
qed

lemma last_requeue: "\<not> (of_nat 19 + 1 :: 64 word) <s MaxRetries"
  by (simp add: MaxRetries_def)

lemma time_Sub_due: "time_Sub t u \<le> 0 \<longleftrightarrow> t \<le> u"
  by (auto simp: time_Sub_def Let_def minDuration_def maxDuration_def)

lemma time_Sub_exact: "0 < t - u \<Longrightarrow> t - u \<le> maxDuration \<Longrightarrow> time_Sub t u = t - u"
  by (auto simp: time_Sub_def Let_def minDuration_def maxDuration_def)

lemma worker_idle:
  assumes "idle q"
  shows "\<exists>q'. idle q' \<and> (\<forall>m. worker (Suc (Suc m)) handler ev q calls = Blocked ev q' calls)"
proof (cases "wakeupCh q")
  case True
  have "idle (q\<lparr>wakeupCh := False\<rparr>)" using assms by (simp add: idle_def)
  moreover have "worker (Suc (Suc m)) handler ev q calls = Blocked ev (q\<lparr>wakeupCh := False\<rparr>) calls"
    for m
    using assms True by (simp add: idle_def getNextItem_pass_def)
  ultimately show ?thesis by blast
next
  case False
  have "worker (Suc (Suc m)) handler ev q calls = Blocked ev q calls" for m
    using assms False by (simp add: idle_def getNextItem_pass_def)
  with assms show ?thesis by blast
qed

lemma pickup_single:
  assumes s: "single_pending k qi q" and due: "plannedToStartWorkAt qi \<le> wall_now ev"
  shows "getNextItem_pass ev q =
     (q\<lparr>itemsBeingProcessed := [k \<mapsto> qi], items := [], itemsInQueue := Map.empty\<rparr>, Ready qi)"
  using assms
  by (auto simp: single_pending_def getNextItem_pass_def Let_def time_Until_def time_Sub_due)

lemma sleep_single:
  assumes s: "single_pending k qi q" and nd: "wall_now ev < plannedToStartWorkAt qi"
    and b: "plannedToStartWorkAt qi - wall_now ev \<le> maxDuration"
  shows "getNextItem_pass ev q = (q, Sleep (plannedToStartWorkAt qi - wall_now ev))"
proof -
  have "time_Sub (plannedToStartWorkAt qi) (wall_now ev) = plannedToStartWorkAt qi - wall_now ev"
    using nd b by (intro time_Sub_exact) simp_all
  moreover have "\<not> plannedToStartWorkAt qi - wall_now ev \<le> 0" using nd by simp
  ultimately show ?thesis
    using s by (auto simp: single_pending_def getNextItem_pass_def Let_def time_Until_def)
qed

lemma complete_single_requeue:
  assumes s: "single_pending k qi q" and rq: "requeues qi + 1 <s MaxRetries"
  shows "\<exists>q2. handleQueueItemObject ev
           (q\<lparr>itemsBeingProcessed := [k \<mapsto> qi], items := [], itemsInQueue := Map.empty\<rparr>)
           qi (Some er) = Inr (q2, None) \<and>
         single_pending k
           ((new_queueItem k (clock_now ev))
              \<lparr>plannedToStartWorkAt := clock_now ev + ratelimiter_When ev (rl_calls q) k,
               delayedViaRateLimit := Some (ratelimiter_When ev (rl_calls q) k),
               requeues := requeues qi + 1, originallyAdded := originallyAdded qi\<rparr>) q2"
  using assms
  by (simp add: single_pending_def handleQueueItemObject_def insert_queue_def Let_def
      place_new_def list_PushFront_def update_ref_def time_Add_def new_queueItem_def)

lemma complete_single_drop:
  assumes s: "single_pending k qi q" and rq: "\<not> requeues qi + 1 <s MaxRetries"
  shows "\<exists>q2 e. handleQueueItemObject ev
           (q\<lparr>itemsBeingProcessed := [k \<mapsto> qi], items := [], itemsInQueue := Map.empty\<rparr>)
           qi (Some er) = Inr (q2, e) \<and> idle q2"
  using assms
  by (simp add: single_pending_def handleQueueItemObject_def Let_def IsZero_def
      ratelimiter_Forget_def idle_def)

lemma round_due:
  assumes s: "single_pending k qi q" and due: "plannedToStartWorkAt qi \<le> wall_now ev"
    and h: "handler k = Some er" and W: "\<forall>h k. ratelimiter_When ev h k \<le> maxDuration"
  shows "\<exists>q'. round_done k qi ev q' \<and>
           (\<forall>m c. worker (Suc m) handler ev q c = worker m handler ev q' (Suc c))"
proof -
  let ?q1 = "q\<lparr>itemsBeingProcessed := [k \<mapsto> qi], items := [], itemsInQueue := Map.empty\<rparr>"
  have p: "getNextItem_pass ev q = (?q1, Ready qi)" by (rule pickup_single [OF s due])
  have kk: "key qi = k" using s by (simp add: single_pending_def)
  show ?thesis
  proof (cases "requeues qi + 1 <s MaxRetries")
    case True
    let ?qi = "(new_queueItem k (clock_now ev))
              \<lparr>plannedToStartWorkAt := clock_now ev + ratelimiter_When ev (rl_calls q) k,
               delayedViaRateLimit := Some (ratelimiter_When ev (rl_calls q) k),
               requeues := requeues qi + 1, originallyAdded := originallyAdded qi\<rparr>"
    from complete_single_requeue [OF s True, of ev er] obtain q2 where
      c: "handleQueueItemObject ev ?q1 qi (Some er) = Inr (q2, None)" "single_pending k ?qi q2"
      by blast
    have "plannedToStartWorkAt ?qi - clock_now ev \<le> maxDuration" using W by simp
    with c(2) True have "round_done k qi ev q2"
      unfolding round_done_def by (auto intro!: exI [of _ ?qi])
    moreover have "worker (Suc m) handler ev q c = worker m handler ev q2 (Suc c)" for m c
      using p c(1) h kk by simp
    ultimately show ?thesis by blast
  next
    case False
    from complete_single_drop [OF s False, of ev er] obtain q2 e where
      c: "handleQueueItemObject ev ?q1 qi (Some er) = Inr (q2, e)" "idle q2" by blast
    have "round_done k qi ev q2" using c(2) False by (simp add: round_done_def)
    moreover have "worker (Suc m) handler ev q c = worker m handler ev q2 (Suc c)" for m c
      using p c(1) h kk by simp
    ultimately show ?thesis by blast
  qed
qed

lemma single_pending_wakeup [simp]:
  "single_pending k qi (q\<lparr>wakeupCh := b\<rparr>) = single_pending k qi q"
  by (simp add: single_pending_def)

lemma round_any:
  assumes s: "single_pending k qi q" and clk: "wall_now ev = clock_now ev"
    and b: "plannedToStartWorkAt qi - clock_now ev \<le> maxDuration"
    and h: "handler k = Some er" and W: "\<forall>h k. ratelimiter_When ev h k \<le> maxDuration"
  shows "\<exists>n ev' q'. n \<le> 2 \<and> wall_now ev' = clock_now ev' \<and>
           ratelimiter_When ev' = ratelimiter_When ev \<and> round_done k qi ev' q' \<and>
           (\<forall>m c. worker (n + Suc m) handler ev q c = worker m handler ev' q' (Suc c))"
proof (cases "plannedToStartWorkAt qi \<le> wall_now ev")
  case True
  from round_due [where handler = handler, OF s True h W] obtain q' where
    "round_done k qi ev q'"
    "\<forall>m c. worker (Suc m) handler ev q c = worker m handler ev q' (Suc c)" by blast
  then have "round_done k qi ev q' \<and>
      (\<forall>m c. worker (0 + Suc m) handler ev q c = worker m handler ev q' (Suc c))" by simp
  with clk show ?thesis by (metis le0)
next
  case False
  let ?t = "plannedToStartWorkAt qi - wall_now ev"
  let ?ev = "advance ev ?t"
  have nd: "wall_now ev < plannedToStartWorkAt qi" using False by simp
  have bb: "?t \<le> maxDuration" using b clk by simp
  have e1: "wall_now ?ev = clock_now ?ev" using clk by (simp add: advance_def)
  have e2: "ratelimiter_When ?ev = ratelimiter_When ev" by (simp add: advance_def)
  have due: "plannedToStartWorkAt qi \<le> wall_now ?ev" by (simp add: advance_def)
  have W': "\<forall>h k. ratelimiter_When ?ev h k \<le> maxDuration" using W e2 by simp
  have sl: "getNextItem_pass ev q0 = (q0, Sleep ?t)" if "single_pending k qi q0" for q0
    by (rule sleep_single [OF that nd bb])
  show ?thesis
  proof (cases "wakeupCh q")
    case nw: False
    from round_due [where handler = handler, OF s due h W'] obtain q' where
      r: "round_done k qi ?ev q'"
         "\<forall>m c. worker (Suc m) handler ?ev q c = worker m handler ?ev q' (Suc c)" by blast
    have "worker (1 + Suc m) handler ev q c = worker m handler ?ev q' (Suc c)" for m c
      using sl [OF s] nw r(2) by simp
    with r(1) e1 e2 show ?thesis by (metis one_le_numeral)
  next
    case True
    let ?q = "q\<lparr>wakeupCh := False\<rparr>"
    have s': "single_pending k qi ?q" using s by simp
    from round_due [where handler = handler, OF s' due h W'] obtain q' where
      r: "round_done k qi ?ev q'"
         "\<forall>m c. worker (Suc m) handler ?ev ?q c = worker m handler ?ev q' (Suc c)" by blast
    have "worker (2 + Suc m) handler ev q c = worker m handler ?ev q' (Suc c)" for m c
    proof -
      have "worker (2 + Suc m) handler ev q c = worker (Suc (Suc m)) handler ev ?q c"
        using sl [OF s] True by (simp add: numeral_2_eq_2)
      also have "\<dots> = worker (Suc m) handler ?ev ?q c"
        using sl [OF s'] by simp
      also have "\<dots> = worker m handler ?ev q' (Suc c)" using r(2) by simp
      finally show ?thesis .
    qed
    with r(1) e1 e2 show ?thesis by (metis order_refl)
  qed
qed

declare worker.simps [simp del]

lemma run_retries:
  assumes "single_pending k qi q" and "requeues qi = of_nat r" and "r \<le> 19"
    and "wall_now ev = clock_now ev"
    and "plannedToStartWorkAt qi - clock_now ev \<le> maxDuration"
    and h: "handler k = Some er"
    and "\<forall>h k. ratelimiter_When ev h k \<le> maxDuration"
  shows "\<exists>N ev' q'. N \<le> 3 * (20 - r) \<and> idle q' \<and>
           (\<forall>m c. worker (N + m) handler ev q c = worker m handler ev' q' (c + (20 - r)))"
  using assms(1-5,7)
proof (induction "19 - r" arbitrary: r qi q ev)
  case 0
  then have r: "r = 19" by simp
  from round_any [where handler = handler, OF "0.prems"(1) "0.prems"(4) "0.prems"(5) h "0.prems"(6)]
  obtain n ev' q' where
    a: "n \<le> 2" "round_done k qi ev' q'"
       "\<forall>m c. worker (n + Suc m) handler ev q c = worker m handler ev' q' (Suc c)"
    by blast
  have "idle q'" using a(2) "0.prems"(2) r last_requeue by (simp add: round_done_def)
  moreover have "Suc n \<le> 3 * (20 - r)" using a(1) r by simp
  moreover have "worker (Suc n + m) handler ev q c = worker m handler ev' q' (c + (20 - r))"
    for m c
  proof -
    have "Suc n + m = n + Suc m" by simp
    then have "worker (Suc n + m) handler ev q c = worker (n + Suc m) handler ev q c"
      by (rule arg_cong)
    also have "\<dots> = worker m handler ev' q' (Suc c)" using a(3) by blast
    finally show ?thesis using r by simp
  qed
  ultimately show ?case by blast
next
  case (Suc d)
  then have r: "r < 19" "d = 19 - Suc r" by simp_all
  from round_any [where handler = handler, OF Suc.prems(1) Suc.prems(4) Suc.prems(5) h Suc.prems(6)]
  obtain n ev' q' where
    a: "n \<le> 2" "wall_now ev' = clock_now ev'" "ratelimiter_When ev' = ratelimiter_When ev"
       "round_done k qi ev' q'"
       "\<forall>m c. worker (n + Suc m) handler ev q c = worker m handler ev' q' (Suc c)"
    by blast
  have "requeues qi + 1 <s MaxRetries" using small_requeues [OF r(1)] Suc.prems(2) by simp
  with a(4) obtain qi' where
    b: "single_pending k qi' q'" "requeues qi' = requeues qi + 1"
       "plannedToStartWorkAt qi' - clock_now ev' \<le> maxDuration"
    by (auto simp: round_done_def)
  have rq: "requeues qi' = of_nat (Suc r)" using b(2) Suc.prems(2) by simp
  have W': "\<forall>h k. ratelimiter_When ev' h k \<le> maxDuration" using Suc.prems(6) a(3) by simp
  have le: "Suc r \<le> 19" using r(1) by simp
  from Suc.hyps(1) [OF r(2) b(1) rq le a(2) b(3) W'] obtain N ev'' q'' where
    c: "N \<le> 3 * (20 - Suc r)" "idle q''"
       "\<forall>m c. worker (N + m) handler ev' q' c = worker m handler ev'' q'' (c + (20 - Suc r))"
    by blast
  have "n + Suc N \<le> 3 * (20 - r)" using a(1) c(1) r(1) by simp
  moreover have "worker (n + Suc N + m) handler ev q c =
      worker m handler ev'' q'' (c + (20 - r))" for m c
  proof -
    have "n + Suc N + m = n + Suc (N + m)" by simp
    then have "worker (n + Suc N + m) handler ev q c = worker (n + Suc (N + m)) handler ev q c"
      by (rule arg_cong)
    also have "\<dots> = worker (N + m) handler ev' q' (Suc c)" using a(5) by blast
    also have "\<dots> = worker m handler ev'' q'' (Suc c + (20 - Suc r))" using c(3) by blast
    also have "Suc c + (20 - Suc r) = c + (20 - r)" using r(1) by simp
    finally show ?thesis .
  qed
  ultimately show ?case using c(2) by blast
qed

lemma Enqueue_idle:
  assumes "idle q"
  shows "\<exists>q1 qi. Enqueue ev q k = Inr q1 \<and> single_pending k qi q1 \<and> requeues qi = 0 \<and>
           plannedToStartWorkAt qi = clock_now ev + ratelimiter_When ev (rl_calls q) k"
  using assms
  by (simp add: idle_def Enqueue_def insert_queue_def Let_def place_new_def list_PushFront_def
      single_pending_def new_queueItem_def time_Add_def)

lemma failing_handler_runs_20_times:
  assumes i: "idle q" and h: "handler k = Some er"
    and clk: "wall_now ev = clock_now ev"
    and W: "\<forall>h k. ratelimiter_When ev h k \<le> maxDuration"
  shows "\<exists>q1. Enqueue ev q k = Inr q1 \<and>
           (\<forall>fuel\<ge>62. \<exists>ev' q'. worker fuel handler ev q1 0 = Blocked ev' q' 20 \<and> idle q')"
proof -
  from Enqueue_idle [OF i, of ev k] obtain q1 qi where
    a: "Enqueue ev q k = Inr q1" "single_pending k qi q1" "requeues qi = 0"
       "plannedToStartWorkAt qi = clock_now ev + ratelimiter_When ev (rl_calls q) k"
    by blast
  have b: "plannedToStartWorkAt qi - clock_now ev \<le> maxDuration" using a(4) W by simp
  have r0: "requeues qi = of_nat 0" using a(3) by simp
  from run_retries [where handler = handler, OF a(2) r0 _ clk b h W] obtain N ev' q' where
    c: "N \<le> 3 * (20 - 0)" "idle q'"
       "\<forall>m c. worker (N + m) handler ev q1 c = worker m handler ev' q' (c + (20 - 0))"
    by auto
  from worker_idle [OF c(2), of handler ev' 20] obtain q'' where
    d: "idle q''" "\<forall>m. worker (Suc (Suc m)) handler ev' q' 20 = Blocked ev' q'' 20" by blast
  have "\<exists>ev' q'. worker fuel handler ev q1 0 = Blocked ev' q' 20 \<and> idle q'"
    if "62 \<le> fuel" for fuel
  proof -
    from that c(1) have "fuel = N + Suc (Suc (fuel - N - 2))" by simp
    then have "worker fuel handler ev q1 0 =
        worker (Suc (Suc (fuel - N - 2))) handler ev' q' (0 + (20 - 0))"
      using c(3) by metis
    then show ?thesis using d by auto
  qed
  with a(1) show ?thesis by blast
qed

lemma handler_error_requeue:
  assumes inv: "queue_inv q"
    and fl: "itemsBeingProcessed q (key qi) = Some qi"
    and nf: "\<not> forget qi"
    and rq: "requeues qi + 1 <s MaxRetries"
  shows "\<exists>q'. handleQueueItemObject ev q qi (Some er) = Inr (q', None) \<and>
         rl_calls q' = rl_calls q @ [RL_When (key qi)] \<and>
         itemsBeingProcessed q' = (itemsBeingProcessed q)(key qi := None) \<and>
         itemsInQueue q' = (itemsInQueue q)(key qi \<mapsto> next_elem q) \<and>
         list_Remove (next_elem q) (items q') = items q \<and>
         list_Value (next_elem q) (items q') =
           Some ((new_queueItem (key qi) (clock_now ev))
             \<lparr>plannedToStartWorkAt := clock_now ev + ratelimiter_When ev (rl_calls q) (key qi),
              delayedViaRateLimit := Some (ratelimiter_When ev (rl_calls q) (key qi)),
              requeues := requeues qi + 1,
              originallyAdded := originallyAdded qi\<rparr>)"
proof -
  let ?k = "key qi"
  let ?q1 = "q\<lparr>itemsBeingProcessed := (itemsBeingProcessed q)(?k := None)\<rparr>"
  let ?f = "\<lambda>i. i\<lparr>requeues := requeues qi + 1, originallyAdded := originallyAdded qi\<rparr>"
  let ?w = "ratelimiter_When ev (rl_calls q) ?k"
  let ?q3 = "?q1\<lparr>rl_calls := rl_calls ?q1 @ [RL_When ?k]\<rparr>"
  let ?val = "(new_queueItem ?k (clock_now ev))
      \<lparr>plannedToStartWorkAt := clock_now ev + ?w, delayedViaRateLimit := Some ?w\<rparr>"
  have np: "itemsInQueue q ?k = None"
    using inv fl unfolding queue_inv_def pending_inflight_disjoint_def
    by (meson disjoint_iff domI domIff)
  have a: "itemsBeingProcessed ?q1 ?k = None" "itemsInQueue ?q1 ?k = None"
    using np by simp_all
  have i: "insert_queue ev ?q1 ?k True 0 = Inr (place_new ?q3 ?val)"
    using insert_queue_new_ratelimit [OF a, of ev 0] by (simp add: time_Add_def)
  have "elements_wf ?q3" using inv by (simp add: queue_inv_def elements_wf_def)
  from place_new_then_update [OF this, of ?val ?f] obtain its where
    u: "update_ref (snd (place_new ?q3 ?val)) ?f (fst (place_new ?q3 ?val)) =
          (fst (place_new ?q3 ?val))\<lparr>items := its\<rparr>"
       "list_Remove (next_elem ?q3) its = items ?q3"
       "list_Value (next_elem ?q3) its = Some (?f ?val)"
    by blast
  have "handleQueueItemObject ev q qi (Some er) =
      Inr ((fst (place_new ?q3 ?val))\<lparr>items := its\<rparr>, None)"
    using nf rq i u(1) by (simp add: handleQueueItemObject_def case_prod_unfold)
  then show ?thesis
    using u(2) u(3) by (simp add: place_new_fields key_new_queueItem)
qed

subsection \<open>The re-insert of a re-dirtied item\<close>

lemma completion_redirty_state:
  assumes inv: "queue_inv q"
    and fl: "itemsBeingProcessed q (key qi) = Some qi"
    and nf: "\<not> forget qi"
    and rd: "redirtiedAt qi \<noteq> 0"
    and fin: "err = None \<or> \<not> requeues qi + 1 <s MaxRetries"
    and clk: "wall_now ev = clock_now ev"
    and legal: "\<not> (redirtiedWithRatelimit qi \<and> 0 < time_Sub (redirtiedAt qi) (clock_now ev))"
  shows "\<exists>q'. handleQueueItemObject ev q qi err =
           Inr (q', map_option (MaxRetriesReached (key qi)) err) \<and>
         rl_calls q' = rl_calls q @ RL_Forget (key qi) #
           (if redirtiedWithRatelimit qi then [RL_When (key qi)] else []) \<and>
         itemsBeingProcessed q' = (itemsBeingProcessed q)(key qi := None) \<and>
         itemsInQueue q' = (itemsInQueue q)(key qi \<mapsto> next_elem q) \<and>
         list_Remove (next_elem q) (items q') = items q \<and>
         list_Value (next_elem q) (items q') =
           Some ((new_queueItem (key qi) (clock_now ev))
             \<lparr>plannedToStartWorkAt :=
                (if redirtiedWithRatelimit qi
                 then clock_now ev + ratelimiter_When ev (rl_calls q @ [RL_Forget (key qi)]) (key qi)
                 else clock_now ev + time_Sub (redirtiedAt qi) (clock_now ev)),
              delayedViaRateLimit :=
                (if redirtiedWithRatelimit qi
                 then Some (ratelimiter_When ev (rl_calls q @ [RL_Forget (key qi)]) (key qi))
                 else None),
              addedViaRedirty := True\<rparr>)"
proof -
  let ?k = "key qi"
  let ?q2 = "ratelimiter_Forget (q\<lparr>itemsBeingProcessed := (itemsBeingProcessed q)(?k := None)\<rparr>) ?k"
  let ?f = "\<lambda>i. i\<lparr>addedViaRedirty := True\<rparr>"
  let ?d = "time_Sub (redirtiedAt qi) (clock_now ev)"
  have np: "itemsInQueue q ?k = None"
    using inv fl unfolding queue_inv_def pending_inflight_disjoint_def
    by (meson disjoint_iff domI domIff)
  have a: "itemsBeingProcessed ?q2 ?k = None" "itemsInQueue ?q2 ?k = None"
    using np by (simp_all add: ratelimiter_Forget_def)
  have h: "handleQueueItemObject ev q qi err =
      (case insert_queue ev ?q2 ?k (redirtiedWithRatelimit qi) ?d of
         Inl p \<Rightarrow> Inl p
       | Inr (q3, newQI) \<Rightarrow>
           Inr (update_ref newQI ?f q3, map_option (MaxRetriesReached ?k) err))"
    using nf rd fin clk
    by (auto simp: handleQueueItemObject_def Let_def IsZero_def time_Until_def)
  have wf: "elements_wf q0" if "items q0 = items q" "next_elem q0 = next_elem q" for q0
    using inv that by (simp add: queue_inv_def elements_wf_def)
  show ?thesis
  proof (cases "redirtiedWithRatelimit qi")
    case True
    with legal have nd: "\<not> 0 < ?d" by simp
    let ?w = "ratelimiter_When ev (rl_calls q @ [RL_Forget ?k]) ?k"
    let ?q3 = "?q2\<lparr>rl_calls := rl_calls ?q2 @ [RL_When ?k]\<rparr>"
    let ?val = "(new_queueItem ?k (clock_now ev))
        \<lparr>plannedToStartWorkAt := clock_now ev + ?w, delayedViaRateLimit := Some ?w\<rparr>"
    have i: "insert_queue ev ?q2 ?k True ?d = Inr (place_new ?q3 ?val)"
      using insert_queue_new_ratelimit [OF a, of ev ?d] nd
      by (simp add: ratelimiter_Forget_def time_Add_def)
    have "elements_wf ?q3" by (rule wf) (simp_all add: ratelimiter_Forget_def)
    from place_new_then_update [OF this, of ?val ?f] obtain its where
      u: "update_ref (snd (place_new ?q3 ?val)) ?f (fst (place_new ?q3 ?val)) =
            (fst (place_new ?q3 ?val))\<lparr>items := its\<rparr>"
         "list_Remove (next_elem ?q3) its = items ?q3"
         "list_Value (next_elem ?q3) its = Some (?f ?val)"
      by blast
    have "handleQueueItemObject ev q qi err =
        Inr ((fst (place_new ?q3 ?val))\<lparr>items := its\<rparr>, map_option (MaxRetriesReached ?k) err)"
      using h i u(1) True by (simp add: case_prod_unfold)
    then show ?thesis
      using u(2) u(3) True
      by (simp add: place_new_fields ratelimiter_Forget_def key_new_queueItem)
  next
    case False
    let ?val = "(new_queueItem ?k (clock_now ev))\<lparr>plannedToStartWorkAt := clock_now ev + ?d\<rparr>"
    have i: "insert_queue ev ?q2 ?k False ?d = Inr (place_new ?q2 ?val)"
      using insert_queue_new [OF a, of ev ?d] by (simp add: time_Add_def)
    have "elements_wf ?q2" by (rule wf) (simp_all add: ratelimiter_Forget_def)
    from place_new_then_update [OF this, of ?val ?f] obtain its where
      u: "update_ref (snd (place_new ?q2 ?val)) ?f (fst (place_new ?q2 ?val)) =
            (fst (place_new ?q2 ?val))\<lparr>items := its\<rparr>"
         "list_Remove (next_elem ?q2) its = items ?q2"
         "list_Value (next_elem ?q2) its = Some (?f ?val)"
      by blast
    have "handleQueueItemObject ev q qi err =
        Inr ((fst (place_new ?q2 ?val))\<lparr>items := its\<rparr>, map_option (MaxRetriesReached ?k) err)"
      using h i u(1) False by (simp add: case_prod_unfold)
    then show ?thesis
      using u(2) u(3) False
      by (simp add: place_new_fields ratelimiter_Forget_def new_queueItem_def)
  qed
qed

section \<open>The claims\<close>

subsection \<open>C1\<close>

text \<open>
  C1 (amended). Every public queue operation (\<open>Enqueue\<close>, \<open>EnqueueWithoutRateLimit\<close>,
  \<open>EnqueueWithoutRateLimitWithDelay\<close>, \<open>Forget\<close>, the pickup of \<open>getNextItem\<close> and the
  completion step) preserves the state invariants: a key is in \<open>itemsInQueue\<close> iff it is
  exactly once in the list of items, no key is both in \<open>itemsInQueue\<close> and in
  \<open>itemsBeingProcessed\<close>, and the list is ordered non-decreasingly by
  \<open>plannedToStartWorkAt\<close>. The three enqueue operations never panic. Items with equal
  planned times do not keep the order of their insertion: when \<open>insert\<close> creates a new item
  (the key is neither in flight nor pending), it puts the item after every pending item
  planned strictly earlier and ahead of every pending item planned at the same time or
  later, the other items keeping their order.
\<close>

theorem queue_operations_preserve_invariants:
  assumes "queue_inv q"
  shows "(\<exists>q'. Enqueue ev q k = Inr q' \<and> queue_inv q') \<and>
         (\<exists>q'. EnqueueWithoutRateLimit ev q k = Inr q' \<and> queue_inv q') \<and>
         (\<exists>q'. EnqueueWithoutRateLimitWithDelay ev q k after = Inr q' \<and> queue_inv q') \<and>
         queue_inv (Forget q k) \<and>
         queue_inv (fst (getNextItem_pass ev q)) \<and>
         (\<forall>q' e. handleQueueItemObject ev q qi err = Inr (q', e) \<longrightarrow> queue_inv q') \<and>
         (\<forall>q' ref. itemsBeingProcessed q k = None \<and> itemsInQueue q k = None \<and>
            insert_queue ev q k ratelimit delay = Inr (q', ref) \<longrightarrow>
            (\<exists>pre post val. items q = pre @ post \<and>
               items q' = pre @ (next_elem q, val) # post \<and> key val = k \<and>
               plannedToStartWorkAt val =
                 (if ratelimit then clock_now ev + ratelimiter_When ev (rl_calls q) k
                  else clock_now ev + delay) \<and>
               (\<forall>x\<in>set pre. plannedToStartWorkAt (snd x) < plannedToStartWorkAt val) \<and>
               (\<forall>x\<in>set post. plannedToStartWorkAt val \<le> plannedToStartWorkAt (snd x))))"
proof -
  have ins: "\<exists>q'. map_sum id fst (insert_queue ev q k ratelimit delay) = Inr q' \<and> queue_inv q'"
    if "\<not> (ratelimit \<and> 0 < delay)" for ratelimit delay
  proof (cases "insert_queue ev q k ratelimit delay")
    case (Inl p)
    with that insert_queue_panics [of ev q k ratelimit delay] show ?thesis by auto
  next
    case (Inr r)
    obtain q' ref where "r = (q', ref)" by (cases r)
    with Inr queue_inv_insert_queue [OF assms, of ev k ratelimit delay q' ref]
    show ?thesis by simp
  qed
  have "\<exists>q'. Enqueue ev q k = Inr q' \<and> queue_inv q'"
    unfolding Enqueue_def by (rule ins) simp
  moreover have "\<exists>q'. EnqueueWithoutRateLimit ev q k = Inr q' \<and> queue_inv q'"
    unfolding EnqueueWithoutRateLimit_def by (rule ins) simp
  moreover have "\<exists>q'. EnqueueWithoutRateLimitWithDelay ev q k after = Inr q' \<and> queue_inv q'"
    unfolding EnqueueWithoutRateLimitWithDelay_def by (rule ins) simp
  moreover have "queue_inv (Forget q k)" by (rule queue_inv_Forget [OF assms])
  moreover have "queue_inv (fst (getNextItem_pass ev q))"
    by (rule queue_inv_getNextItem_pass [OF assms])
  moreover have "\<forall>q' e. handleQueueItemObject ev q qi err = Inr (q', e) \<longrightarrow> queue_inv q'"
    using queue_inv_handleQueueItemObject [OF assms] by blast
  moreover have "\<forall>q' ref. itemsBeingProcessed q k = None \<and> itemsInQueue q k = None \<and>
            insert_queue ev q k ratelimit delay = Inr (q', ref) \<longrightarrow>
            (\<exists>pre post val. items q = pre @ post \<and>
               items q' = pre @ (next_elem q, val) # post \<and> key val = k \<and>
               plannedToStartWorkAt val =
                 (if ratelimit then clock_now ev + ratelimiter_When ev (rl_calls q) k
                  else clock_now ev + delay) \<and>
               (\<forall>x\<in>set pre. plannedToStartWorkAt (snd x) < plannedToStartWorkAt val) \<and>
               (\<forall>x\<in>set post. plannedToStartWorkAt val \<le> plannedToStartWorkAt (snd x)))"
    using insert_queue_new_placement [OF assms] by blast
  ultimately show ?thesis by (intro conjI) blast+
qed

text \<open>
  An instance on \<open>q_ex\<close>: a new key, a pending key brought forward, a pending key
  forgotten, a pickup, the completion of the item in flight, and a new key \<open>d\<close> planned at
  50, which is put ahead of \<open>a\<close>, planned at 50 as well.
\<close>

theorem queue_operations_preserve_invariants_witness:
  "queue_inv q_ex \<and>
   (\<exists>q'. Enqueue ev_ex q_ex ''d'' = Inr q' \<and> queue_inv q') \<and>
   (\<exists>q'. EnqueueWithoutRateLimitWithDelay ev_ex q_ex ''b'' (-40) = Inr q' \<and> queue_inv q') \<and>
   queue_inv (Forget q_ex ''a'') \<and>
   queue_inv (fst (getNextItem_pass ev_ex q_ex)) \<and>
   (\<exists>q' e. handleQueueItemObject ev_ex q_ex ((item_ex ''c'' 20)\<lparr>redirtiedAt := 90\<rparr>) None
       = Inr (q', e) \<and> queue_inv q') \<and>
   (\<exists>q' ref. insert_queue ev_ex q_ex ''d'' False (-50) = Inr (q', ref) \<and>
      map (\<lambda>x. (key (snd x), plannedToStartWorkAt (snd x))) (items q') =
        [(''d'', 50), (''a'', 50), (''b'', 70)])"
proof -
  have 1: "queue_inv q_ex \<and>
   (\<exists>q'. Enqueue ev_ex q_ex ''d'' = Inr q' \<and> queue_inv q') \<and>
   (\<exists>q'. EnqueueWithoutRateLimitWithDelay ev_ex q_ex ''b'' (-40) = Inr q' \<and> queue_inv q') \<and>
   queue_inv (Forget q_ex ''a'') \<and>
   queue_inv (fst (getNextItem_pass ev_ex q_ex)) \<and>
   (\<exists>q' e. handleQueueItemObject ev_ex q_ex ((item_ex ''c'' 20)\<lparr>redirtiedAt := 90\<rparr>) None
       = Inr (q', e) \<and> queue_inv q')"
    using queue_operations_preserve_invariants [OF queue_inv_q_ex, where ev = ev_ex
        and k = "''d''" and after = 0 and qi = item_c and err = None and ratelimit = False
        and delay = 0]
      queue_operations_preserve_invariants [OF queue_inv_q_ex, where ev = ev_ex
        and k = "''b''" and after = "-40" and qi = item_c and err = None and ratelimit = False
        and delay = 0]
      queue_operations_preserve_invariants [OF queue_inv_q_ex, where ev = ev_ex
        and k = "''a''" and after = 0 and qi = "(item_ex ''c'' 20)\<lparr>redirtiedAt := 90\<rparr>"
        and err = None and ratelimit = False and delay = 0]
      completion_q_ex queue_inv_q_ex
    by blast
  have n: "itemsBeingProcessed q_ex ''d'' = None \<and> itemsInQueue q_ex ''d'' = None"
    by (simp add: q_ex_def)
  obtain q' ref where i: "insert_queue ev_ex q_ex ''d'' False (-50) = Inr (q', ref)"
    using insert_queue_panics [of ev_ex q_ex "''d''" False "-50"]
    by (cases "insert_queue ev_ex q_ex ''d'' False (-50)") auto
  from queue_operations_preserve_invariants [OF queue_inv_q_ex, where ev = ev_ex
      and k = "''d''" and after = 0 and qi = item_c and err = None and ratelimit = False
      and delay = "-50"] n i
  obtain pre post val where
    h: "items q_ex = pre @ post" "items q' = pre @ (next_elem q_ex, val) # post"
       "key val = ''d''" "plannedToStartWorkAt val = clock_now ev_ex + (-50)"
       "\<forall>x\<in>set pre. plannedToStartWorkAt (snd x) < plannedToStartWorkAt val"
    by auto
  have "pre = []"
  proof (cases pre)
    case (Cons x xs)
    with h(1) have x: "x = (0, item_ex ''a'' 50)" by (simp add: q_ex_def)
    from Cons h(5) have "plannedToStartWorkAt (snd x) < plannedToStartWorkAt val" by simp
    with x h(4) show ?thesis by (simp add: item_ex_def ev_ex_def)
  qed simp
  with h have "map (\<lambda>x. (key (snd x), plannedToStartWorkAt (snd x))) (items q') =
        [(''d'', 50), (''a'', 50), (''b'', 70)]"
    by (auto simp: q_ex_def item_ex_def ev_ex_def new_queueItem_def)
  with i have 2: "\<exists>q' ref. insert_queue ev_ex q_ex ''d'' False (-50) = Inr (q', ref) \<and>
      map (\<lambda>x. (key (snd x), plannedToStartWorkAt (snd x))) (items q') =
        [(''d'', 50), (''a'', 50), (''b'', 70)]"
    by - (rule exI [of _ q'], rule exI [of _ ref], simp)
  from 1 2 show ?thesis by simp
qed

text \<open>
  C1 as stated fails: two keys enqueued without rate limit at the same instant stand in
  the list in the reverse of their insertion order.
\<close>

theorem ties_keep_insertion_order_counterexample:
  "EnqueueWithoutRateLimit ev_ex New ''a'' = Inr q_a \<and>
   EnqueueWithoutRateLimit ev_ex q_a ''b'' = Inr q_ba \<and>
   queue_inv q_a \<and> ties_keep_insertion_order q_a \<and>
   map (key \<circ> snd) (items q_ba) = [''b'', ''a''] \<and>
   \<not> ties_keep_insertion_order q_ba"
  by (auto simp: EnqueueWithoutRateLimit_def insert_queue_def New_def q_a_def q_ba_def ev_ex_def
      place_new_def Let_def time_Add_def time_Before_def list_PushFront_def
      ties_keep_insertion_order_def new_queueItem_def queue_inv_def elements_wf_def
      index_matches_list_def pending_inflight_disjoint_def pending_sorted_def)

subsection \<open>C2\<close>

text \<open>
  C2 (amended). In a state that satisfies the invariants of C1, let a worker complete an
  item in flight whose \<open>forget\<close> flag is not set and whose \<open>redirtiedAt\<close> is not zero, after
  the handler succeeded or the retries are exhausted, with the wall clock equal to the
  injected clock, and let it not be the case that
  \<open>redirtiedWithRatelimit\<close> is set while \<open>redirtiedAt\<close> is still in the future. Then the
  completion does not panic, calls \<open>Forget\<close> of the rate limiter exactly once, and inserts a
  fresh item for the key with \<open>ratelimit = redirtiedWithRatelimit\<close> and
  \<open>delay = redirtiedAt - now\<close>, not clamped at 0 (the difference is cut to the range of a
  \<open>Duration\<close>, as \<open>Time.Sub\<close> does): the new item is planned at \<open>now + When(key)\<close> when rate
  limited and at \<open>now + delay\<close> otherwise, which is \<open>redirtiedAt\<close> itself when the difference
  is in that range; it is marked \<open>addedViaRedirty\<close>, and the other pending items are
  unchanged.
\<close>

theorem completion_redirty:
  assumes inv: "queue_inv q"
    and fl: "itemsBeingProcessed q (key qi) = Some qi"
    and nf: "\<not> forget qi"
    and rd: "redirtiedAt qi \<noteq> 0"
    and fin: "err = None \<or> \<not> requeues qi + 1 <s MaxRetries"
    and clk: "wall_now ev = clock_now ev"
    and legal: "\<not> (redirtiedWithRatelimit qi \<and> 0 < time_Sub (redirtiedAt qi) (clock_now ev))"
  shows "(\<exists>q'. handleQueueItemObject ev q qi err =
           Inr (q', map_option (MaxRetriesReached (key qi)) err) \<and>
         rl_calls q' = rl_calls q @ RL_Forget (key qi) #
           (if redirtiedWithRatelimit qi then [RL_When (key qi)] else []) \<and>
         itemsBeingProcessed q' = (itemsBeingProcessed q)(key qi := None) \<and>
         itemsInQueue q' = (itemsInQueue q)(key qi \<mapsto> next_elem q) \<and>
         list_Remove (next_elem q) (items q') = items q \<and>
         list_Value (next_elem q) (items q') =
           Some ((new_queueItem (key qi) (clock_now ev))
             \<lparr>plannedToStartWorkAt :=
                (if redirtiedWithRatelimit qi
                 then clock_now ev + ratelimiter_When ev (rl_calls q @ [RL_Forget (key qi)]) (key qi)
                 else clock_now ev + time_Sub (redirtiedAt qi) (clock_now ev)),
              delayedViaRateLimit :=
                (if redirtiedWithRatelimit qi
                 then Some (ratelimiter_When ev (rl_calls q @ [RL_Forget (key qi)]) (key qi))
                 else None),
              addedViaRedirty := True\<rparr>)) \<and>
         (minDuration \<le> redirtiedAt qi - clock_now ev \<and>
          redirtiedAt qi - clock_now ev \<le> maxDuration \<longrightarrow>
            clock_now ev + time_Sub (redirtiedAt qi) (clock_now ev) = redirtiedAt qi)"
proof -
  have "minDuration \<le> redirtiedAt qi - clock_now ev \<and>
          redirtiedAt qi - clock_now ev \<le> maxDuration \<longrightarrow>
            clock_now ev + time_Sub (redirtiedAt qi) (clock_now ev) = redirtiedAt qi"
    by (simp add: time_Sub_def Let_def)
  with completion_redirty_state [OF assms] show ?thesis by blast
qed

text \<open>
  An instance: the item \<open>c\<close> of \<open>q_ex\<close> was re-dirtied at 90 and completes at 100; the new
  item is planned at 90.
\<close>

theorem completion_redirty_witness:
  "queue_inv q_ex \<and> itemsBeingProcessed q_ex (key item_c) = Some item_c \<and> \<not> forget item_c \<and>
   redirtiedAt item_c \<noteq> 0 \<and> wall_now ev_ex = clock_now ev_ex \<and>
   \<not> (redirtiedWithRatelimit item_c \<and> 0 < time_Sub (redirtiedAt item_c) (clock_now ev_ex)) \<and>
   minDuration \<le> redirtiedAt item_c - clock_now ev_ex \<and>
   redirtiedAt item_c - clock_now ev_ex \<le> maxDuration \<and>
   clock_now ev_ex + time_Sub (redirtiedAt item_c) (clock_now ev_ex) = redirtiedAt item_c \<and>
   (\<exists>q'. handleQueueItemObject ev_ex q_ex item_c None = Inr (q', None) \<and>
      rl_calls q' = [RL_Forget ''c''] \<and>
      itemsBeingProcessed q' = Map.empty \<and>
      itemsInQueue q' ''c'' = Some 2 \<and>
      list_Remove 2 (items q') = items q_ex \<and>
      list_Value 2 (items q') =
        Some ((new_queueItem ''c'' 100)\<lparr>plannedToStartWorkAt := 90, addedViaRedirty := True\<rparr>))"
proof -
  have fl: "itemsBeingProcessed q_ex (key item_c) = Some item_c"
    by (simp add: q_ex_def item_c_def item_ex_def new_queueItem_def)
  have nf: "\<not> forget item_c" by (simp add: item_c_def item_ex_def new_queueItem_def)
  have rd: "redirtiedAt item_c \<noteq> 0" by (simp add: item_c_def)
  have fin: "(None :: error option) = None \<or> \<not> requeues item_c + 1 <s MaxRetries" by simp
  have clk: "wall_now ev_ex = clock_now ev_ex" by (simp add: ev_ex_def)
  have legal: "\<not> (redirtiedWithRatelimit item_c \<and>
      0 < time_Sub (redirtiedAt item_c) (clock_now ev_ex))"
    by (simp add: item_c_def item_ex_def new_queueItem_def)
  have e: "(itemsBeingProcessed q_ex)(key item_c := None) = Map.empty"
    by (auto simp: q_ex_def item_c_def item_ex_def new_queueItem_def)
  have rg: "minDuration \<le> redirtiedAt item_c - clock_now ev_ex \<and>
      redirtiedAt item_c - clock_now ev_ex \<le> maxDuration"
    by (simp add: item_c_def ev_ex_def minDuration_def maxDuration_def)
  with completion_redirty [OF queue_inv_q_ex fl nf rd fin clk legal]
  have ex: "clock_now ev_ex + time_Sub (redirtiedAt item_c) (clock_now ev_ex) =
      redirtiedAt item_c"
    by blast
  from completion_redirty [OF queue_inv_q_ex fl nf rd fin clk legal] e
  have "\<exists>q'. handleQueueItemObject ev_ex q_ex item_c None = Inr (q', None) \<and>
      rl_calls q' = [RL_Forget ''c''] \<and>
      itemsBeingProcessed q' = Map.empty \<and>
      itemsInQueue q' ''c'' = Some 2 \<and>
      list_Remove 2 (items q') = items q_ex \<and>
      list_Value 2 (items q') =
        Some ((new_queueItem ''c'' 100)\<lparr>plannedToStartWorkAt := 90, addedViaRedirty := True\<rparr>)"
    by (auto simp: q_ex_def ev_ex_def item_c_def item_ex_def new_queueItem_def
        time_Sub_def minDuration_def maxDuration_def)
  with fl nf rd clk legal rg ex queue_inv_q_ex show ?thesis by blast
qed

text \<open>
  C2 as stated fails: with \<open>delay = max(0, redirtiedAt - now)\<close> the new item of the same
  instance would be planned at 100, the code plans it at 90.
\<close>

theorem completion_redirty_delay_counterexample:
  "queue_inv q_ex \<and> itemsBeingProcessed q_ex (key item_c) = Some item_c \<and> \<not> forget item_c \<and>
   redirtiedAt item_c \<noteq> 0 \<and>
   map (\<lambda>x. (key (snd x), plannedToStartWorkAt (snd x)))
     (items (fst (projr (handleQueueItemObject ev_ex q_ex item_c None)))) =
     [(''a'', 50), (''b'', 70), (''c'', 90)] \<and>
   map (\<lambda>x. (key (snd x), plannedToStartWorkAt (snd x)))
     (items (projr (completion_redirty_spec ev_ex q_ex item_c))) =
     [(''a'', 50), (''b'', 70), (''c'', 100)] \<and>
   map_sum id fst (handleQueueItemObject ev_ex q_ex item_c None) \<noteq>
     completion_redirty_spec ev_ex q_ex item_c"
proof -
  have a: "map (\<lambda>x. (key (snd x), plannedToStartWorkAt (snd x)))
     (items (fst (projr (handleQueueItemObject ev_ex q_ex item_c None)))) =
     [(''a'', 50), (''b'', 70), (''c'', 90)]"
    by (simp add: handleQueueItemObject_def q_ex_def ev_ex_def item_c_def item_ex_def
        new_queueItem_def Let_def IsZero_def insert_queue_def ratelimiter_Forget_def
        place_new_def time_Until_def time_Sub_def minDuration_def maxDuration_def
        time_Add_def time_Before_def update_ref_def)
  have b: "map (\<lambda>x. (key (snd x), plannedToStartWorkAt (snd x)))
     (items (projr (completion_redirty_spec ev_ex q_ex item_c))) =
     [(''a'', 50), (''b'', 70), (''c'', 100)]"
    by (simp add: completion_redirty_spec_def q_ex_def ev_ex_def item_c_def item_ex_def
        new_queueItem_def Let_def IsZero_def insert_queue_def ratelimiter_Forget_def
        place_new_def time_Add_def time_Before_def update_ref_def)
  have c: "\<exists>r. handleQueueItemObject ev_ex q_ex item_c None = Inr r"
    by (simp add: handleQueueItemObject_def q_ex_def ev_ex_def item_c_def item_ex_def
        new_queueItem_def Let_def IsZero_def insert_queue_def ratelimiter_Forget_def
        place_new_def split: prod.splits)
  have "map_sum id fst (handleQueueItemObject ev_ex q_ex item_c None) \<noteq>
     completion_redirty_spec ev_ex q_ex item_c"
  proof
    assume eq: "map_sum id fst (handleQueueItemObject ev_ex q_ex item_c None) =
      completion_redirty_spec ev_ex q_ex item_c"
    from c obtain r where r: "handleQueueItemObject ev_ex q_ex item_c None = Inr r" by blast
    with eq have "completion_redirty_spec ev_ex q_ex item_c = Inr (fst r)" by simp
    with r a b show False by simp
  qed
  moreover have "itemsBeingProcessed q_ex (key item_c) = Some item_c"
    by (simp add: q_ex_def item_c_def item_ex_def new_queueItem_def)
  moreover have "\<not> forget item_c" by (simp add: item_c_def item_ex_def new_queueItem_def)
  moreover have "redirtiedAt item_c \<noteq> 0" by (simp add: item_c_def)
  ultimately show ?thesis using a b queue_inv_q_ex by blast
qed

subsection \<open>C3\<close>

text \<open>
  C3 (fails on the code). The due-time test of \<open>getNextItem\<close> and the delay of the re-insert
  on completion are computed by \<open>time.Until\<close>, which reads the wall clock of the process,
  not the injected clock. Two environments with the same injected clock (100) and the same
  rate limiter, but wall clocks 100 and 0: in the first the item planned at 100 is handed
  out, in the second the worker sleeps for 100; in the first the re-dirtied item is
  planned at 90 on completion, in the second at 190.
\<close>

theorem time_comparisons_read_wall_clock:
  "clock_now ev_wall = clock_now ev_ex \<and>
   ratelimiter_When ev_wall = ratelimiter_When ev_ex \<and>
   getNextItem_pass ev_ex q_a =
     (q_a\<lparr>itemsBeingProcessed := [''a'' \<mapsto> new_queueItem ''a'' 100], items := [],
          itemsInQueue := Map.empty\<rparr>, Ready (new_queueItem ''a'' 100)) \<and>
   getNextItem_pass ev_wall q_a = (q_a, Sleep 100) \<and>
   map (\<lambda>x. (key (snd x), plannedToStartWorkAt (snd x)))
     (items (fst (projr (handleQueueItemObject ev_ex q_ex item_c None)))) =
     [(''a'', 50), (''b'', 70), (''c'', 90)] \<and>
   map (\<lambda>x. (key (snd x), plannedToStartWorkAt (snd x)))
     (items (fst (projr (handleQueueItemObject ev_wall q_ex item_c None)))) =
     [(''a'', 50), (''b'', 70), (''c'', 190)]"
proof -
  have 1: "getNextItem_pass ev_ex q_a =
     (q_a\<lparr>itemsBeingProcessed := [''a'' \<mapsto> new_queueItem ''a'' 100], items := [],
          itemsInQueue := Map.empty\<rparr>, Ready (new_queueItem ''a'' 100))"
    by (auto simp: getNextItem_pass_def q_a_def ev_ex_def new_queueItem_def Let_def
        time_Until_def time_Sub_def minDuration_def maxDuration_def)
  have 2: "getNextItem_pass ev_wall q_a = (q_a, Sleep 100)"
    by (simp add: getNextItem_pass_def q_a_def ev_wall_def ev_ex_def new_queueItem_def Let_def
        time_Until_def time_Sub_def minDuration_def maxDuration_def)
  have 3: "map (\<lambda>x. (key (snd x), plannedToStartWorkAt (snd x)))
     (items (fst (projr (handleQueueItemObject ev_ex q_ex item_c None)))) =
     [(''a'', 50), (''b'', 70), (''c'', 90)]"
    by (simp add: handleQueueItemObject_def q_ex_def ev_ex_def item_c_def item_ex_def
        new_queueItem_def Let_def IsZero_def insert_queue_def ratelimiter_Forget_def
        place_new_def time_Until_def time_Sub_def minDuration_def maxDuration_def
        time_Add_def time_Before_def update_ref_def)
  have 4: "map (\<lambda>x. (key (snd x), plannedToStartWorkAt (snd x)))
     (items (fst (projr (handleQueueItemObject ev_wall q_ex item_c None)))) =
     [(''a'', 50), (''b'', 70), (''c'', 190)]"
    by (simp add: handleQueueItemObject_def q_ex_def ev_wall_def ev_ex_def item_c_def item_ex_def
        new_queueItem_def Let_def IsZero_def insert_queue_def ratelimiter_Forget_def
        place_new_def time_Until_def time_Sub_def minDuration_def maxDuration_def
        time_Add_def time_Before_def update_ref_def)
  from 1 2 3 4 show ?thesis by (simp add: ev_wall_def)
qed

subsection \<open>C4\<close>

text \<open>
  C4 (amended). For a key already pending, with \<open>when = now + delay\<close>: if \<open>when\<close> is strictly
  later than the item's \<open>plannedToStartWorkAt\<close>, the insert leaves the planned time and the
  list unchanged; if \<open>when\<close> is earlier than or equal to it, the insert sets the planned
  time to \<open>when\<close> and moves the item forward (never backward), to just after the items
  planned strictly before \<open>when\<close> and ahead of every item planned at \<open>when\<close> or later; the
  other items keep their order and the list stays sorted non-decreasingly. The rate
  limiter is not consulted and nothing panics.
\<close>

theorem reinsert_pending:
  assumes inv: "queue_inv q" and iq: "itemsInQueue q k = Some e"
  shows "\<exists>qi. list_Value e (items q) = Some qi \<and> key qi = k \<and>
     (plannedToStartWorkAt qi < clock_now ev + delay \<longrightarrow>
        insert_queue ev q k ratelimit delay = Inr (q\<lparr>wakeupCh := True\<rparr>, InList e)) \<and>
     (clock_now ev + delay \<le> plannedToStartWorkAt qi \<longrightarrow>
        (\<exists>pre post.
           insert_queue ev q k ratelimit delay =
             Inr (q\<lparr>items := pre @ (e, qi\<lparr>plannedToStartWorkAt := clock_now ev + delay\<rparr>) # post,
                    wakeupCh := True\<rparr>, InList e) \<and>
           pre @ post = list_Remove e (items q) \<and>
           length pre \<le> length (takeWhile (\<lambda>x. fst x \<noteq> e) (items q)) \<and>
           (\<forall>x\<in>set pre. plannedToStartWorkAt (snd x) < clock_now ev + delay) \<and>
           (\<forall>x\<in>set post. clock_now ev + delay \<le> plannedToStartWorkAt (snd x)) \<and>
           sorted (map (plannedToStartWorkAt \<circ> snd)
             (pre @ (e, qi\<lparr>plannedToStartWorkAt := clock_now ev + delay\<rparr>) # post))))"
proof -
  let ?when = "clock_now ev + delay"
  let ?f = "plannedToStartWorkAt \<circ> snd"
  from inv have wf: "elements_wf q" and ix: "index_matches_list q" and so: "pending_sorted q"
    by (simp_all add: queue_inv_def)
  from wf have d: "distinct (map fst (items q))" by (simp add: elements_wf_def)
  from indexed_element [OF ix iq] obtain qi where qi: "(e, qi) \<in> set (items q)" "key qi = k"
    by blast
  then obtain pre post where i: "items q = pre @ (e, qi) # post" by (meson split_list)
  from d i have epre: "e \<notin> fst ` set pre" by auto
  have v: "list_Value e (items q) = Some qi" using d qi(1) by (simp add: list_Value_Some)
  have nf: "itemsBeingProcessed q k = None" by (rule pending_not_in_flight [OF inv iq])
  have ins: "insert_queue ev q k ratelimit delay =
      Inr ((adjustPosition q e ?when)\<lparr>wakeupCh := True\<rparr>, InList e)"
    using insert_queue_pending [OF nf iq] by (simp add: time_Add_def)
  have later: "insert_queue ev q k ratelimit delay = Inr (q\<lparr>wakeupCh := True\<rparr>, InList e)"
    if "plannedToStartWorkAt qi < ?when"
    using ins adjustPosition_later [OF v that] by simp
  have earlier: "\<exists>pre post.
           insert_queue ev q k ratelimit delay =
             Inr (q\<lparr>items := pre @ (e, qi\<lparr>plannedToStartWorkAt := ?when\<rparr>) # post,
                    wakeupCh := True\<rparr>, InList e) \<and>
           pre @ post = list_Remove e (items q) \<and>
           length pre \<le> length (takeWhile (\<lambda>x. fst x \<noteq> e) (items q)) \<and>
           (\<forall>x\<in>set pre. plannedToStartWorkAt (snd x) < ?when) \<and>
           (\<forall>x\<in>set post. ?when \<le> plannedToStartWorkAt (snd x)) \<and>
           sorted (map ?f (pre @ (e, qi\<lparr>plannedToStartWorkAt := ?when\<rparr>) # post))"
    if w: "?when \<le> plannedToStartWorkAt qi"
  proof -
    let ?qi = "qi\<lparr>plannedToStartWorkAt := ?when\<rparr>"
    from adjustPosition_items [OF d i w] obtain p1 p2 where
      h: "pre = p1 @ p2"
         "adjustPosition q e ?when = q\<lparr>items := p1 @ (e, ?qi) # p2 @ post\<rparr>"
         "p1 = [] \<or> plannedToStartWorkAt (snd (last p1)) < ?when"
         "\<forall>x\<in>set p2. ?when \<le> plannedToStartWorkAt (snd x)"
      by blast
    have s0: "sorted (map ?f (p1 @ p2 @ (e, qi) # post))"
      using so i h(1) by (simp add: pending_sorted_def)
    then have sp1: "sorted (map ?f p1)" by (simp add: sorted_append)
    have a: "insert_queue ev q k ratelimit delay =
        Inr (q\<lparr>items := p1 @ (e, ?qi) # (p2 @ post), wakeupCh := True\<rparr>, InList e)"
      using ins h(2) by simp
    have "list_Remove e (items q) = pre @ post"
      unfolding i using epre by (rule list_Remove_append)
    then have b: "p1 @ (p2 @ post) = list_Remove e (items q)"
      by (simp add: h(1))
    have "takeWhile (\<lambda>x. fst x \<noteq> e) (items q) = pre"
      using list_Prevs_append [OF epre, of qi post] by (simp add: list_Prevs_def i)
    then have c: "length p1 \<le> length (takeWhile (\<lambda>x. fst x \<noteq> e) (items q))"
      by (simp add: h(1))
    have dd: "\<forall>x\<in>set p1. plannedToStartWorkAt (snd x) < ?when"
      using sorted_below_last [OF sp1, of ?when] h(3) by auto
    have ee: "\<forall>x\<in>set (p2 @ post). ?when \<le> plannedToStartWorkAt (snd x)"
      using h(4) s0 w by (auto simp: sorted_append)
    have "sorted (map ?f (p1 @ (p2 @ post)))" using s0 by (auto simp: sorted_append)
    moreover have "\<forall>x\<in>set (p2 @ post). ?f (e, ?qi) \<le> ?f x" using ee by simp
    moreover have "p1 = [] \<or> ?f (last p1) < ?f (e, ?qi)" using h(3) by simp
    ultimately have ff: "sorted (map ?f (p1 @ (e, ?qi) # (p2 @ post)))"
      by (intro sorted_insert_between)
    from a b c dd ee ff show ?thesis by blast
  qed
  from v qi(2) later earlier show ?thesis by blast
qed

text \<open>
  Two instances on a queue with \<open>a\<close> planned at 50 and \<open>b\<close> at 70, at time 100: an insert
  of \<open>b\<close> with delay 5 changes nothing, one with delay -60 brings \<open>b\<close> to 40, ahead of \<open>a\<close>.
\<close>

theorem reinsert_pending_witness:
  "queue_inv q_ex \<and> itemsInQueue q_ex ''b'' = Some 1 \<and>
   list_Value 1 (items q_ex) = Some (item_ex ''b'' 70) \<and>
   insert_queue ev_ex q_ex ''b'' False 5 = Inr (q_ex\<lparr>wakeupCh := True\<rparr>, InList 1) \<and>
   map (\<lambda>x. (key (snd x), plannedToStartWorkAt (snd x)))
     (items (fst (projr (insert_queue ev_ex q_ex ''b'' False (-60))))) = [(''b'', 40), (''a'', 50)]"
proof -
  have iq: "itemsInQueue q_ex ''b'' = Some 1" by (simp add: q_ex_def)
  have v: "list_Value 1 (items q_ex) = Some (item_ex ''b'' 70)" by (simp add: q_ex_def)
  from reinsert_pending [OF queue_inv_q_ex iq, of ev_ex 5 False] v
  have 1: "insert_queue ev_ex q_ex ''b'' False 5 = Inr (q_ex\<lparr>wakeupCh := True\<rparr>, InList 1)"
    by (auto simp: ev_ex_def item_ex_def new_queueItem_def)
  from reinsert_pending [OF queue_inv_q_ex iq, of ev_ex "-60" False] v
  obtain pre post where
    h: "insert_queue ev_ex q_ex ''b'' False (-60) =
          Inr (q_ex\<lparr>items := pre @ (1, (item_ex ''b'' 70)\<lparr>plannedToStartWorkAt := 40\<rparr>) # post,
                 wakeupCh := True\<rparr>, InList 1)"
       "pre @ post = list_Remove 1 (items q_ex)"
       "\<forall>x\<in>set pre. plannedToStartWorkAt (snd x) < 40"
    by (auto simp: ev_ex_def item_ex_def new_queueItem_def)
  have r: "list_Remove 1 (items q_ex) = [(0, item_ex ''a'' 50)]" by (simp add: q_ex_def)
  from h(2) r have "pre = [] \<and> post = [(0, item_ex ''a'' 50)] \<or>
      pre = [(0, item_ex ''a'' 50)] \<and> post = []"
    by (auto simp: append_eq_Cons_conv)
  with h(3) have "pre = [] \<and> post = [(0, item_ex ''a'' 50)]"
    by (auto simp: item_ex_def)
  with h(1) have "map (\<lambda>x. (key (snd x), plannedToStartWorkAt (snd x)))
     (items (fst (projr (insert_queue ev_ex q_ex ''b'' False (-60))))) = [(''b'', 40), (''a'', 50)]"
    by (simp add: item_ex_def new_queueItem_def)
  with 1 iq v queue_inv_q_ex show ?thesis by simp
qed

text \<open>
  C4 as stated fails when \<open>when\<close> equals the planned time: with \<open>b\<close> and \<open>a\<close> both planned at
  100 and \<open>b\<close> ahead, enqueueing \<open>a\<close> again at time 100 moves \<open>a\<close> to the front.
\<close>

theorem reinsert_equal_time_counterexample:
  "queue_inv q_ba \<and> itemsInQueue q_ba ''a'' = Some 0 \<and>
   list_Value 0 (items q_ba) = Some (new_queueItem ''a'' 100) \<and>
   clock_now ev_ex + 0 \<ge> plannedToStartWorkAt (new_queueItem ''a'' 100) \<and>
   map (key \<circ> snd) (items q_ba) = [''b'', ''a''] \<and>
   EnqueueWithoutRateLimit ev_ex q_ba ''a'' = Inr q_aba \<and>
   map (key \<circ> snd) (items q_aba) = [''a'', ''b'']"
  by (auto simp: EnqueueWithoutRateLimit_def insert_queue_def q_ba_def q_aba_def ev_ex_def
      adjustPosition_def Let_def time_Add_def time_Before_def time_After_def
      list_MoveToFront_def list_MoveAfter_def list_Prevs_def
      new_queueItem_def queue_inv_def elements_wf_def
      index_matches_list_def pending_inflight_disjoint_def pending_sorted_def)

subsection \<open>C5\<close>

text \<open>
  C5. \<open>MaxRetries\<close> is 20. When the handler returned an error for an item in flight whose
  \<open>forget\<close> flag is not set and \<open>requeues + 1 < MaxRetries\<close>, the completion returns no error
  and re-inserts the key rate limited with delay zero: the rate limiter's \<open>When\<close> is called
  once, and the new pending item is planned at \<open>now + When(key)\<close>, with \<open>requeues\<close> one more
  than the old item's and the old item's \<open>originallyAdded\<close>; the other pending items are
  unchanged. Consequently, for one \<open>Enqueue\<close> on an idle queue and a handler that fails on
  the key, a single worker run alone (the clocks agreeing, the rate limiter's delays within
  the range of a \<open>Duration\<close>) calls the handler exactly 20 times and is then blocked on an
  idle queue: every run of at least 62 passes ends so, hence no further call is made.
\<close>

theorem handler_error_retries:
  "MaxRetries = 20 \<and>
   (queue_inv q \<and> itemsBeingProcessed q (key qi) = Some qi \<and> \<not> forget qi \<and>
      requeues qi + 1 <s MaxRetries \<longrightarrow>
    (\<exists>q'. handleQueueItemObject ev q qi (Some er) = Inr (q', None) \<and>
       rl_calls q' = rl_calls q @ [RL_When (key qi)] \<and>
       itemsBeingProcessed q' = (itemsBeingProcessed q)(key qi := None) \<and>
       itemsInQueue q' = (itemsInQueue q)(key qi \<mapsto> next_elem q) \<and>
       list_Remove (next_elem q) (items q') = items q \<and>
       list_Value (next_elem q) (items q') =
         Some ((new_queueItem (key qi) (clock_now ev))
           \<lparr>plannedToStartWorkAt := clock_now ev + ratelimiter_When ev (rl_calls q) (key qi),
            delayedViaRateLimit := Some (ratelimiter_When ev (rl_calls q) (key qi)),
            requeues := requeues qi + 1,
            originallyAdded := originallyAdded qi\<rparr>))) \<and>
   (idle q0 \<and> handler k = Some er \<and> wall_now ev = clock_now ev \<and>
      (\<forall>h k. ratelimiter_When ev h k \<le> maxDuration) \<longrightarrow>
    (\<exists>q1. Enqueue ev q0 k = Inr q1 \<and>
       (\<forall>fuel\<ge>62. \<exists>ev' q'. worker fuel handler ev q1 0 = Blocked ev' q' 20 \<and> idle q')))"
  using handler_error_requeue [of q qi ev er]
    failing_handler_runs_20_times [of q0 handler k er ev]
  by (simp add: MaxRetries_def)

text \<open>
  An instance of each part: the failing completion of the item \<open>c\<close> of \<open>q_ex\<close>, and a run of
  62 passes after \<open>Enqueue\<close> of \<open>a\<close> on the new queue.
\<close>

theorem handler_error_retries_witness:
  "queue_inv q_ex \<and> itemsBeingProcessed q_ex (key item_c) = Some item_c \<and> \<not> forget item_c \<and>
   requeues item_c + 1 <s MaxRetries \<and>
   (\<exists>q'. handleQueueItemObject ev_ex q_ex item_c (Some (HandlerError ''boom'')) = Inr (q', None) \<and>
      rl_calls q' = [RL_When ''c''] \<and>
      list_Value 2 (items q') =
        Some ((new_queueItem ''c'' 100)
          \<lparr>plannedToStartWorkAt := 110, delayedViaRateLimit := Some 10,
           requeues := 1, originallyAdded := 1\<rparr>)) \<and>
   idle New \<and> wall_now ev_ex = clock_now ev_ex \<and>
   (\<exists>q1 ev' q'. Enqueue ev_ex New ''a'' = Inr q1 \<and>
      worker 62 (\<lambda>k. Some (HandlerError ''boom'')) ev_ex q1 0 = Blocked ev' q' 20 \<and> idle q')"
proof -
  have fl: "itemsBeingProcessed q_ex (key item_c) = Some item_c"
    by (simp add: q_ex_def item_c_def item_ex_def new_queueItem_def)
  have nf: "\<not> forget item_c" by (simp add: item_c_def item_ex_def new_queueItem_def)
  have rq: "requeues item_c + 1 <s MaxRetries"
    by (simp add: item_c_def item_ex_def new_queueItem_def MaxRetries_def word_sless_alt)
  have i: "idle New" by (simp add: idle_def New_def)
  have clk: "wall_now ev_ex = clock_now ev_ex" by (simp add: ev_ex_def)
  have W: "\<forall>h k. ratelimiter_When ev_ex h k \<le> maxDuration"
    by (simp add: ev_ex_def maxDuration_def)
  note t = handler_error_retries [of q_ex item_c ev_ex "HandlerError ''boom''" New
      "\<lambda>k. Some (HandlerError ''boom'')" "''a''"]
  from t queue_inv_q_ex fl nf rq
  have 1: "\<exists>q'. handleQueueItemObject ev_ex q_ex item_c (Some (HandlerError ''boom'')) = Inr (q', None) \<and>
      rl_calls q' = [RL_When ''c''] \<and>
      list_Value 2 (items q') =
        Some ((new_queueItem ''c'' 100)
          \<lparr>plannedToStartWorkAt := 110, delayedViaRateLimit := Some 10,
           requeues := 1, originallyAdded := 1\<rparr>)"
    by (auto simp: q_ex_def ev_ex_def item_c_def item_ex_def new_queueItem_def)
  from t i clk W
  have "\<exists>q1. Enqueue ev_ex New ''a'' = Inr q1 \<and>
       (\<forall>fuel\<ge>62. \<exists>ev' q'. worker fuel (\<lambda>k. Some (HandlerError ''boom'')) ev_ex q1 0 =
          Blocked ev' q' 20 \<and> idle q')"
    by blast
  then have 2: "\<exists>q1 ev' q'. Enqueue ev_ex New ''a'' = Inr q1 \<and>
      worker 62 (\<lambda>k. Some (HandlerError ''boom'')) ev_ex q1 0 = Blocked ev' q' 20 \<and> idle q'"
    by (meson order_refl)
  from 1 2 queue_inv_q_ex fl nf rq i clk show ?thesis by blast
qed

subsection \<open>C6\<close>

text \<open>
  C6. For a key in \<open>itemsBeingProcessed\<close>, \<open>insert\<close> adds nothing to the pending items: the
  list and \<open>itemsInQueue\<close> are unchanged and the rate limiter is not called. It sets
  \<open>redirtiedAt\<close> to now + delay when \<open>redirtiedAt\<close> is zero or when now + delay is earlier
  than it, records \<open>redirtiedWithRatelimit\<close> in the same cases, clears the \<open>forget\<close> flag
  and returns the item in flight. It never panics on this path.
\<close>

theorem insert_in_flight_merges:
  assumes "itemsBeingProcessed q k = Some item"
  shows "\<exists>q'. insert_queue ev q k ratelimit delay = Inr (q', InFlight k) \<and>
           items q' = items q \<and> itemsInQueue q' = itemsInQueue q \<and>
           rl_calls q' = rl_calls q \<and>
           itemsBeingProcessed q' = (itemsBeingProcessed q)(k \<mapsto>
             item\<lparr>redirtiedAt :=
                    (if redirtiedAt item = 0 \<or> clock_now ev + delay < redirtiedAt item
                     then clock_now ev + delay else redirtiedAt item),
                  redirtiedWithRatelimit :=
                    (if redirtiedAt item = 0 \<or> clock_now ev + delay < redirtiedAt item
                     then ratelimit else redirtiedWithRatelimit item),
                  forget := False\<rparr>)"
  using assms
  by (simp add: insert_queue_in_flight IsZero_def time_Before_def time_Add_def)

text \<open>
  An instance: the item in flight under \<open>c\<close> was re-dirtied at 90; an insert at time
  100 with delay -30 brings \<open>redirtiedAt\<close> to 70.
\<close>

theorem insert_in_flight_merges_witness:
  "itemsBeingProcessed q_ex ''c'' = Some ((item_ex ''c'' 20)\<lparr>redirtiedAt := 90\<rparr>) \<and>
   (\<exists>q'. insert_queue ev_ex q_ex ''c'' True (-30) = Inr (q', InFlight ''c'') \<and>
      items q' = items q_ex \<and> itemsInQueue q' = itemsInQueue q_ex \<and>
      itemsBeingProcessed q' ''c'' =
        Some ((item_ex ''c'' 20)\<lparr>redirtiedAt := 70, redirtiedWithRatelimit := True\<rparr>))"
proof -
  have h: "itemsBeingProcessed q_ex ''c'' = Some ((item_ex ''c'' 20)\<lparr>redirtiedAt := 90\<rparr>)"
    by (simp add: q_ex_def)
  from insert_in_flight_merges [OF h, of ev_ex True "-30"] h show ?thesis
    by (auto simp: ev_ex_def item_ex_def new_queueItem_def)
qed

subsection \<open>C7\<close>

text \<open>
  C7. When a worker completes an item whose \<open>forget\<close> flag is set, the completion calls
  \<open>Forget\<close> of the rate limiter once, removes the item from \<open>itemsBeingProcessed\<close> and
  returns no error, whatever the handler returned; the pending items are unchanged, so
  nothing is enqueued again, also when \<open>redirtiedAt\<close> is not zero.
\<close>

theorem forget_flag_discards:
  assumes "forget qi"
  shows "handleQueueItemObject ev q qi err =
     Inr (q\<lparr>itemsBeingProcessed := (itemsBeingProcessed q)(key qi := None),
            rl_calls := rl_calls q @ [RL_Forget (key qi)]\<rparr>, None)"
  using assms by (simp add: handleQueueItemObject_def ratelimiter_Forget_def)

text \<open>
  An instance: the handler failed on an item that was re-dirtied and then forgotten.
\<close>

theorem forget_flag_discards_witness:
  "forget ((item_ex ''c'' 20)\<lparr>redirtiedAt := 90, forget := True\<rparr>) \<and>
   handleQueueItemObject ev_ex q_ex ((item_ex ''c'' 20)\<lparr>redirtiedAt := 90, forget := True\<rparr>)
       (Some (HandlerError ''boom'')) =
     Inr (q_ex\<lparr>itemsBeingProcessed := Map.empty, rl_calls := [RL_Forget ''c'']\<rparr>, None)"
proof -
  have h: "forget ((item_ex ''c'' 20)\<lparr>redirtiedAt := 90, forget := True\<rparr>)" by simp
  from forget_flag_discards [OF h, of ev_ex q_ex "Some (HandlerError ''boom'')"] h
  show ?thesis by (simp add: q_ex_def item_ex_def new_queueItem_def)
qed

subsection \<open>C8\<close>

text \<open>
  C8. In a state that satisfies the invariants, \<open>Forget\<close> of a key in \<open>itemsInQueue\<close>
  removes the key from \<open>itemsInQueue\<close> and its item from the list and changes nothing
  else; of a key in flight it only sets the \<open>forget\<close> flag of the item; of an absent key
  it changes nothing. In no case is the rate limiter called.
\<close>

theorem Forget_effect:
  assumes "queue_inv q"
  shows "(\<forall>e. itemsInQueue q k = Some e \<longrightarrow>
            Forget q k = q\<lparr>itemsInQueue := (itemsInQueue q)(k := None),
                           items := filter (\<lambda>x. key (snd x) \<noteq> k) (items q)\<rparr>) \<and>
         (\<forall>qi. itemsBeingProcessed q k = Some qi \<longrightarrow>
            Forget q k = q\<lparr>itemsBeingProcessed :=
                             (itemsBeingProcessed q)(k \<mapsto> qi\<lparr>forget := True\<rparr>)\<rparr>) \<and>
         (itemsInQueue q k = None \<and> itemsBeingProcessed q k = None \<longrightarrow> Forget q k = q) \<and>
         rl_calls (Forget q k) = rl_calls q"
proof -
  have "itemsInQueue q k = None" if "itemsBeingProcessed q k = Some qi" for qi
    using assms that unfolding queue_inv_def pending_inflight_disjoint_def
    by (meson disjoint_iff domI domIff)
  then show ?thesis
    using Forget_pending_items [OF assms, of k]
    by (auto simp: Forget_def split: option.splits)
qed

text \<open>
  An instance for each of the three cases: a pending key, a key in flight, an absent key.
\<close>

theorem Forget_effect_witness:
  "queue_inv q_ex \<and>
   Forget q_ex ''a'' = q_ex\<lparr>itemsInQueue := [''b'' \<mapsto> 1], items := [(1, item_ex ''b'' 70)]\<rparr> \<and>
   Forget q_ex ''c'' = q_ex\<lparr>itemsBeingProcessed :=
       [''c'' \<mapsto> (item_ex ''c'' 20)\<lparr>redirtiedAt := 90, forget := True\<rparr>]\<rparr> \<and>
   Forget q_ex ''z'' = q_ex \<and>
   rl_calls (Forget q_ex ''a'') = rl_calls q_ex"
proof -
  have a: "itemsInQueue q_ex ''a'' = Some 0" by (simp add: q_ex_def)
  have c: "itemsBeingProcessed q_ex ''c'' = Some ((item_ex ''c'' 20)\<lparr>redirtiedAt := 90\<rparr>)"
    by (simp add: q_ex_def)
  have z: "itemsInQueue q_ex ''z'' = None \<and> itemsBeingProcessed q_ex ''z'' = None"
    by (simp add: q_ex_def)
  have m: "(itemsInQueue q_ex)(''a'' := None) = [''b'' \<mapsto> 1]"
    by (auto simp: q_ex_def)
  have f: "filter (\<lambda>x. key (snd x) \<noteq> ''a'') (items q_ex) = [(1, item_ex ''b'' 70)]"
    by (simp add: q_ex_def item_ex_def new_queueItem_def)
  have u: "(itemsBeingProcessed q_ex)(''c'' \<mapsto> (item_ex ''c'' 20)\<lparr>redirtiedAt := 90, forget := True\<rparr>)
      = [''c'' \<mapsto> (item_ex ''c'' 20)\<lparr>redirtiedAt := 90, forget := True\<rparr>]"
    by (simp add: q_ex_def)
  from Forget_effect [OF queue_inv_q_ex, of "''a''"] a m f
  have 1: "Forget q_ex ''a'' =
      q_ex\<lparr>itemsInQueue := [''b'' \<mapsto> 1], items := [(1, item_ex ''b'' 70)]\<rparr>"
    and 4: "rl_calls (Forget q_ex ''a'') = rl_calls q_ex" by simp_all
  from Forget_effect [OF queue_inv_q_ex, of "''c''"] c u
  have 2: "Forget q_ex ''c'' = q_ex\<lparr>itemsBeingProcessed :=
       [''c'' \<mapsto> (item_ex ''c'' 20)\<lparr>redirtiedAt := 90, forget := True\<rparr>]\<rparr>" by simp
  from Forget_effect [OF queue_inv_q_ex, of "''z''"] z
  have 3: "Forget q_ex ''z'' = q_ex" by simp
  from 1 2 3 4 queue_inv_q_ex show ?thesis by simp
qed

subsection \<open>C9\<close>

text \<open>
  C9 (amended). The panics are exactly these. \<open>Run\<close> panics at its entry when
  \<open>workers \<le> 0\<close>, and when the queue is already running: the flag is false in a new
  queue, set by the entry of \<open>Run\<close>, cleared at its exit, and no other operation changes
  it. A worker that \<open>Run\<close> has started panics when it finds no logger, that is when the
  context carries none and \<open>log.L\<close> is nil. \<open>Len\<close> panics exactly when the length of the
  list differs from the size of \<open>itemsInQueue\<close>, which is never so in a state that
  satisfies the invariants. \<open>insert\<close> panics exactly when it creates a new item (the key is
  neither in flight nor pending) with \<open>ratelimit\<close> set and a positive delay; the three
  public enqueue operations never do so, and the completion step of a worker panics only
  in this way, exactly when it re-inserts a re-dirtied item whose
  \<open>redirtiedWithRatelimit\<close> is set while \<open>time.Until(redirtiedAt)\<close> is positive. The loop of
  a worker ends in no other panic, and \<open>Run\<close> with its worker panics in these cases only.
  What the handler, the rate limiter and the tracing do is outside the model.
\<close>

theorem panic_cases:
  "(\<forall>p. Run_enter q workers = Inl p \<longleftrightarrow>
      workers \<le> 0 \<and> p = WorkersNotPositive \<or> 0 < workers \<and> running q \<and> p = AlreadyRunning) \<and>
   running New = False \<and> running (Run_exit q) = False \<and>
   (\<forall>q'. Run_enter q workers = Inr q' \<longrightarrow> q' = q\<lparr>running := True\<rparr>) \<and>
   running (Forget q k) = running q \<and>
   running (fst (getNextItem_pass ev q)) = running q \<and>
   (\<forall>q' r. insert_queue ev q k ratelimit delay = Inr (q', r) \<longrightarrow> running q' = running q) \<and>
   (\<forall>q' e. handleQueueItemObject ev q qi err = Inr (q', e) \<longrightarrow> running q' = running q) \<and>
   (\<forall>p. GetLogger L ctxLogger = Inl p \<longleftrightarrow>
      L = None \<and> ctxLogger = None \<and> p = DefaultLoggerNotInitialized) \<and>
   (\<forall>p. Len q = Inl p \<longleftrightarrow>
      length (items q) \<noteq> card (dom (itemsInQueue q)) \<and> p = InconsistentState) \<and>
   (queue_inv q \<longrightarrow> Len q = Inr (length (items q) + card (dom (itemsBeingProcessed q)))) \<and>
   (\<forall>p. insert_queue ev q k ratelimit delay = Inl p \<longleftrightarrow>
      itemsBeingProcessed q k = None \<and> itemsInQueue q k = None \<and> ratelimit \<and> 0 < delay \<and>
      p = NonZeroDelayWithRateLimit) \<and>
   (\<nexists>p. Enqueue ev q k = Inl p) \<and>
   (\<nexists>p. EnqueueWithoutRateLimit ev q k = Inl p) \<and>
   (\<nexists>p. EnqueueWithoutRateLimitWithDelay ev q k delay = Inl p) \<and>
   (\<forall>p. handleQueueItemObject ev q qi err = Inl p \<longleftrightarrow>
      \<not> forget qi \<and> (err = None \<or> \<not> requeues qi + 1 <s MaxRetries) \<and>
      redirtiedAt qi \<noteq> 0 \<and> redirtiedWithRatelimit qi \<and>
      0 < time_Until (wall_now ev) (redirtiedAt qi) \<and> itemsInQueue q (key qi) = None \<and>
      p = NonZeroDelayWithRateLimit) \<and>
   ((\<exists>ev' q' n. worker fuel handler ev q calls = Blocked ev' q' n) \<or>
    worker fuel handler ev q calls = OutOfFuel \<or>
    worker fuel handler ev q calls = Panicked NonZeroDelayWithRateLimit) \<and>
   (\<forall>p. Run fuel handler L ctxLogger ev q workers = Panicked p \<longleftrightarrow>
      workers \<le> 0 \<and> p = WorkersNotPositive \<or>
      0 < workers \<and> running q \<and> p = AlreadyRunning \<or>
      0 < workers \<and> \<not> running q \<and> L = None \<and> ctxLogger = None \<and>
        p = DefaultLoggerNotInitialized \<or>
      0 < workers \<and> \<not> running q \<and> \<not> (L = None \<and> ctxLogger = None) \<and>
        p = NonZeroDelayWithRateLimit \<and>
        worker fuel handler ev (q\<lparr>running := True\<rparr>) 0 = Panicked NonZeroDelayWithRateLimit)"
proof -
  have 1: "\<forall>p. Run_enter q workers = Inl p \<longleftrightarrow>
      workers \<le> 0 \<and> p = WorkersNotPositive \<or> 0 < workers \<and> running q \<and> p = AlreadyRunning"
    by (auto simp: Run_enter_def)
  have 2: "running New = False \<and> running (Run_exit q) = False"
    by (simp add: New_def Run_exit_def)
  have 3: "\<forall>q'. Run_enter q workers = Inr q' \<longrightarrow> q' = q\<lparr>running := True\<rparr>"
    by (auto simp: Run_enter_def split: if_splits)
  have 4: "running (Forget q k) = running q \<and>
      running (fst (getNextItem_pass ev q)) = running q"
    by (simp add: running_Forget running_getNextItem_pass)
  have 5: "\<forall>q' r. insert_queue ev q k ratelimit delay = Inr (q', r) \<longrightarrow> running q' = running q"
    using running_insert_queue by blast
  have 6: "\<forall>q' e. handleQueueItemObject ev q qi err = Inr (q', e) \<longrightarrow> running q' = running q"
    using running_handleQueueItemObject by blast
  have 7: "\<forall>p. GetLogger L ctxLogger = Inl p \<longleftrightarrow>
      L = None \<and> ctxLogger = None \<and> p = DefaultLoggerNotInitialized"
    by (auto simp: GetLogger_def split: option.splits)
  have 8: "\<forall>p. Len q = Inl p \<longleftrightarrow>
      length (items q) \<noteq> card (dom (itemsInQueue q)) \<and> p = InconsistentState"
    by (auto simp: Len_def)
  have 9: "queue_inv q \<longrightarrow> Len q = Inr (length (items q) + card (dom (itemsBeingProcessed q)))"
    using Len_invariant by blast
  have 10: "\<forall>p. insert_queue ev q k ratelimit delay = Inl p \<longleftrightarrow>
      itemsBeingProcessed q k = None \<and> itemsInQueue q k = None \<and> ratelimit \<and> 0 < delay \<and>
      p = NonZeroDelayWithRateLimit"
    using insert_queue_panic_value by blast
  have 11: "\<nexists>p. Enqueue ev q k = Inl p"
    unfolding Enqueue_def Inl_map_sum_fst insert_queue_panics by simp
  have 12: "\<nexists>p. EnqueueWithoutRateLimit ev q k = Inl p"
    unfolding EnqueueWithoutRateLimit_def Inl_map_sum_fst insert_queue_panics by simp
  have 13: "\<nexists>p. EnqueueWithoutRateLimitWithDelay ev q k delay = Inl p"
    unfolding EnqueueWithoutRateLimitWithDelay_def Inl_map_sum_fst insert_queue_panics by simp
  have 14: "\<forall>p. handleQueueItemObject ev q qi err = Inl p \<longleftrightarrow>
      \<not> forget qi \<and> (err = None \<or> \<not> requeues qi + 1 <s MaxRetries) \<and>
      redirtiedAt qi \<noteq> 0 \<and> redirtiedWithRatelimit qi \<and>
      0 < time_Until (wall_now ev) (redirtiedAt qi) \<and> itemsInQueue q (key qi) = None \<and>
      p = NonZeroDelayWithRateLimit"
    using handleQueueItemObject_panic_value by blast
  note 15 = worker_outcomes [of fuel handler ev q calls]
  have 16: "\<forall>p. Run fuel handler L ctxLogger ev q workers = Panicked p \<longleftrightarrow>
      workers \<le> 0 \<and> p = WorkersNotPositive \<or>
      0 < workers \<and> running q \<and> p = AlreadyRunning \<or>
      0 < workers \<and> \<not> running q \<and> L = None \<and> ctxLogger = None \<and>
        p = DefaultLoggerNotInitialized \<or>
      0 < workers \<and> \<not> running q \<and> \<not> (L = None \<and> ctxLogger = None) \<and>
        p = NonZeroDelayWithRateLimit \<and>
        worker fuel handler ev (q\<lparr>running := True\<rparr>) 0 = Panicked NonZeroDelayWithRateLimit"
    using Run_panic_value by blast
  from 1 2 3 4 5 6 7 8 9 10 11 12 13 14 15 16 show ?thesis by (intro conjI) blast+
qed

text \<open>
  Instances: \<open>Len\<close> on \<open>q_ex\<close>; \<open>Run\<close> entered, entered again, and with no workers; an
  insert of a new key with the rate limit and a delay; and an item picked up at 100 and
  enqueued again at 100 while in flight, whose completion panics when the wall clock
  reads 0 and does not when it reads 100.
\<close>

theorem panic_cases_witness:
  "queue_inv q_ex \<and> Len q_ex = Inr 3 \<and>
   Run_enter q_ex 2 = Inr (q_ex\<lparr>running := True\<rparr>) \<and>
   Run_enter (q_ex\<lparr>running := True\<rparr>) 2 = Inl AlreadyRunning \<and>
   Run_enter q_ex 0 = Inl WorkersNotPositive \<and>
   insert_queue ev_ex q_ex ''d'' True 5 = Inl NonZeroDelayWithRateLimit \<and>
   getNextItem_pass ev_ex q_a = (q_flight, Ready (new_queueItem ''a'' 100)) \<and>
   Enqueue ev_ex q_flight ''a'' = Inr q_redirtied \<and>
   handleQueueItemObject ev_wall q_redirtied item_rl None = Inl NonZeroDelayWithRateLimit \<and>
   (\<exists>q' e. handleQueueItemObject ev_ex q_redirtied item_rl None = Inr (q', e) \<and>
      running q' = running q_redirtied)"
proof -
  note t = panic_cases [where q = q_ex and workers = 2 and k = "''d''" and ev = ev_ex
      and ratelimit = True and delay = 5 and qi = item_c and err = None
      and L = "None :: unit option" and ctxLogger = None and fuel = 0
      and handler = "\<lambda>k. None" and calls = 0]
  have c: "card (dom (itemsBeingProcessed q_ex)) = 1" "length (items q_ex) = 2"
    by (simp_all add: q_ex_def)
  from t queue_inv_q_ex have "Len q_ex = Inr (length (items q_ex) +
      card (dom (itemsBeingProcessed q_ex)))" by blast
  then have 1: "Len q_ex = Inr 3" using c by simp
  have "\<exists>q'. Run_enter q_ex 2 = Inr q'" by (simp add: Run_enter_def q_ex_def)
  with t have 2: "Run_enter q_ex 2 = Inr (q_ex\<lparr>running := True\<rparr>)" by auto
  note u = panic_cases [where q = "q_ex\<lparr>running := True\<rparr>" and workers = 2 and k = "''d''"
      and ev = ev_ex and ratelimit = True and delay = 5 and qi = item_c and err = None
      and L = "None :: unit option" and ctxLogger = None and fuel = 0
      and handler = "\<lambda>k. None" and calls = 0]
  from u have 3: "Run_enter (q_ex\<lparr>running := True\<rparr>) 2 = Inl AlreadyRunning" by simp
  note v = panic_cases [where q = q_ex and workers = 0 and k = "''d''" and ev = ev_ex
      and ratelimit = True and delay = 5 and qi = item_c and err = None
      and L = "None :: unit option" and ctxLogger = None and fuel = 0
      and handler = "\<lambda>k. None" and calls = 0]
  from v have 4: "Run_enter q_ex 0 = Inl WorkersNotPositive" by simp
  have "itemsBeingProcessed q_ex ''d'' = None \<and> itemsInQueue q_ex ''d'' = None"
    by (simp add: q_ex_def)
  with t have 5: "insert_queue ev_ex q_ex ''d'' True 5 = Inl NonZeroDelayWithRateLimit" by simp
  have 6: "getNextItem_pass ev_ex q_a = (q_flight, Ready (new_queueItem ''a'' 100))"
    by (auto simp: getNextItem_pass_def q_a_def q_flight_def ev_ex_def new_queueItem_def Let_def
        time_Until_def time_Sub_def minDuration_def maxDuration_def)
  have 7: "Enqueue ev_ex q_flight ''a'' = Inr q_redirtied"
    by (simp add: Enqueue_def insert_queue_def q_flight_def q_redirtied_def q_a_def ev_ex_def
        item_rl_def new_queueItem_def Let_def IsZero_def time_Add_def)
  note w = panic_cases [where q = q_redirtied and workers = 2 and k = "''d''" and ev = ev_wall
      and ratelimit = True and delay = 5 and qi = item_rl and err = None
      and L = "None :: unit option" and ctxLogger = None and fuel = 0
      and handler = "\<lambda>k. None" and calls = 0]
  have "\<not> forget item_rl \<and> redirtiedAt item_rl \<noteq> 0 \<and> redirtiedWithRatelimit item_rl \<and>
      0 < time_Until (wall_now ev_wall) (redirtiedAt item_rl) \<and>
      itemsInQueue q_redirtied (key item_rl) = None"
    by (simp add: item_rl_def new_queueItem_def ev_wall_def ev_ex_def q_redirtied_def
        q_flight_def q_a_def time_Until_def time_Sub_def minDuration_def maxDuration_def)
  with w have 8: "handleQueueItemObject ev_wall q_redirtied item_rl None =
      Inl NonZeroDelayWithRateLimit" by simp
  note x = panic_cases [where q = q_redirtied and workers = 2 and k = "''d''" and ev = ev_ex
      and ratelimit = True and delay = 5 and qi = item_rl and err = None
      and L = "None :: unit option" and ctxLogger = None and fuel = 0
      and handler = "\<lambda>k. None" and calls = 0]
  have "\<not> 0 < time_Until (wall_now ev_ex) (redirtiedAt item_rl)"
    by (simp add: item_rl_def ev_ex_def time_Until_def time_Sub_def minDuration_def
        maxDuration_def)
  with x have np: "\<nexists>p. handleQueueItemObject ev_ex q_redirtied item_rl None = Inl p"
    by simp
  have 9: "\<exists>q' e. handleQueueItemObject ev_ex q_redirtied item_rl None = Inr (q', e) \<and>
      running q' = running q_redirtied"
  proof (cases "handleQueueItemObject ev_ex q_redirtied item_rl None")
    case (Inl p)
    with np show ?thesis by blast
  next
    case (Inr r)
    obtain q' e where "r = (q', e)" by (cases r)
    with Inr x show ?thesis by auto
  qed
  from 1 2 3 4 5 6 7 8 9 queue_inv_q_ex show ?thesis by blast
qed

text \<open>
  C9 as stated fails: \<open>Run\<close> with one worker on a new queue, which is not running and on
  which nothing was inserted, panics when no logger is available.
\<close>

theorem Run_without_logger_counterexample:
  "Run 1 (\<lambda>k. None) (None :: unit option) None ev_ex New 1 =
     Panicked DefaultLoggerNotInitialized \<and>
   \<not> running New \<and> queue_inv New \<and> Len New = Inr 0 \<and> items New = []"
  by (simp add: Run_def Run_enter_def GetLogger_def New_def Len_def queue_inv_def
      elements_wf_def index_matches_list_def pending_inflight_disjoint_def pending_sorted_def)

subsection \<open>C10\<close>



end
